theory Spec2Isabelle
  imports Main "HOL-Library.Sublist" "HOL-Library.Char_ord" "HOL-Library.List_Lexorder"
begin

section \<open>The mix package manager: strings, store, resolver, transaction engine\<close>

text \<open>
  A shallow embedding of \<^verbatim>\<open>src/mix-cli/pkg/manager\<close> (manager.go, which also
  holds the \<^verbatim>\<open>Database\<close> type, and resolver.go). Go strings are byte strings and
  are modelled as \<^typ>\<open>string\<close>. The SQLite tables are association lists keyed by their primary key; a query that
  finds no row is \<open>None\<close>. JSON-encoded columns (dependencies, files) are kept as the
  string lists they encode. Failures of the database connection itself are outside
  the model: every statement and every transaction succeeds.

  The collaborators of the engine that are not in the repository (HTTP, SHA-256,
  gzip and tar decoding, JSON decoding, the shell, \<^verbatim>\<open>database/sql\<close> row scanning) are
  the fields of the record \<open>env\<close>; every theorem holds for any such environment.
\<close>

subsection \<open>Errors\<close>

text \<open>Errors of the system calls the engine makes.\<close>

datatype os_error =
    ErrNotExist | ErrExist | ErrPermission | ErrNotEmpty | ErrNotDir | ErrIsDir
  | ErrLoop | ErrInvalid | ErrBusy

text \<open>
  Every error the resolver and the engine return. The first group are the errors
  the engine creates or receives from a collaborator; the second group are the
  \<^verbatim>\<open>fmt.Errorf("...: %w", err)\<close> wrappers, one for each stage, around the error that
  caused them. The spec's \<open>ChecksumMismatch\<close> is \<open>ChecksumFailed (ChecksumMismatch _ _)\<close>
  and its \<open>ScriptFailure\<close> is \<open>ScriptFailed\<close> with the label of the hook.
\<close>

datatype error =
    CircularDependency string      \<comment> \<open>circular dependency detected: pkg\<close>
  | AlreadyInstalled string        \<comment> \<open>package pkg is already installed\<close>
  | NotInstalled string            \<comment> \<open>package pkg is not installed\<close>
  | NotFound string                \<comment> \<open>package pkg not found in database\<close>
  | OSError os_error               \<comment> \<open>a failed system call\<close>
  | NetError                       \<comment> \<open>\<^verbatim>\<open>http.Get\<close> or the copy of the response body failed\<close>
  | HTTPStatus nat                 \<comment> \<open>package not found in repository (HTTP status)\<close>
  | GzipError                      \<comment> \<open>\<^verbatim>\<open>gzip.NewReader\<close> failed\<close>
  | TarError                       \<comment> \<open>\<^verbatim>\<open>tar.Reader.Next\<close> or the read of an entry body failed\<close>
  | DecodeError                    \<comment> \<open>the JSON decoder failed on metadata.json\<close>
  | MetadataNotFound               \<comment> \<open>metadata.json not found in package\<close>
  | ExitError                      \<comment> \<open>\<^verbatim>\<open>cmd.Run\<close> failed: the script exited non-zero or did not start\<close>
  | ChecksumMismatch string string \<comment> \<open>checksum mismatch: expected, got\<close>
  | NoRows                         \<comment> \<open>\<^verbatim>\<open>sql.ErrNoRows\<close>\<close>
  | DownloadFailed error           \<comment> \<open>failed to download package: err\<close>
  | ChecksumFailed error           \<comment> \<open>checksum verification failed: err\<close>
  | ExtractFailed error            \<comment> \<open>failed to extract package: err\<close>
  | ScriptFailed string error      \<comment> \<open>pre-install, post-install, pre-remove, post-remove script failed: err\<close>
  | InstallFilesFailed error       \<comment> \<open>failed to install files: err\<close>
  | RemoveFilesFailed error        \<comment> \<open>failed to remove files: err\<close>
  | GetFilesFailed error           \<comment> \<open>failed to get installed files: err\<close>

subsection \<open>String helpers of the Go standard library\<close>

text \<open>
  A Go string holds bytes, read as UTF-8. \<^verbatim>\<open>unicode.IsSpace\<close> holds of tab, newline,
  vertical tab, form feed, carriage return, space, U+0085, U+00A0, U+1680, U+2000 to
  U+200A, U+2028, U+2029, U+202F, U+205F and U+3000; \<open>space_encodings\<close> lists their
  encodings. No encoding is the start or the end of another, so at most one of them
  starts (or ends) a given string.
\<close>

definition space_encodings :: "string list" where
  "space_encodings =
     map (\<lambda>c. [c]) [CHR 0x09, CHR 0x0A, CHR 0x0B, CHR 0x0C, CHR 0x0D, CHR 0x20]
     @ [[CHR 0xC2, CHR 0x85], [CHR 0xC2, CHR 0xA0], [CHR 0xE1, CHR 0x9A, CHR 0x80]]
     @ map (\<lambda>c. [CHR 0xE2, CHR 0x80, c])
         [CHR 0x80, CHR 0x81, CHR 0x82, CHR 0x83, CHR 0x84, CHR 0x85, CHR 0x86, CHR 0x87,
          CHR 0x88, CHR 0x89, CHR 0x8A, CHR 0xA8, CHR 0xA9, CHR 0xAF]
     @ [[CHR 0xE2, CHR 0x81, CHR 0x9F], [CHR 0xE3, CHR 0x80, CHR 0x80]]"

lemma space_encodings_not_Nil: "e \<in> set space_encodings \<Longrightarrow> e \<noteq> []"
  by (auto simp: space_encodings_def)

lemma find_mem: "find P xs = Some x \<Longrightarrow> x \<in> set xs \<and> P x"
  by (induction xs) (auto split: if_splits)

text \<open>\<^verbatim>\<open>strings.TrimSpace\<close> removes the white space characters at the start and at the
  end of the string.\<close>

function TrimLeft_space :: "string \<Rightarrow> string" where
  "TrimLeft_space s =
     (case find (\<lambda>e. prefix e s) space_encodings of
        None \<Rightarrow> s
      | Some e \<Rightarrow> TrimLeft_space (drop (length e) s))"
  by pat_completeness auto
termination
proof (relation "measure length")
  show "wf (measure length)" by simp
next
  fix s e :: string
  assume "find (\<lambda>e. prefix e s) space_encodings = Some e"
  then have "e \<noteq> []" and "prefix e s"
    by (auto dest: find_mem space_encodings_not_Nil)
  then have "0 < length e" and "length e \<le> length s" by (auto dest: prefix_length_le)
  then have "length s - length e < length s" by arith
  then show "(drop (length e) s, s) \<in> measure length" by simp
qed

function TrimRight_space :: "string \<Rightarrow> string" where
  "TrimRight_space s =
     (case find (\<lambda>e. suffix e s) space_encodings of
        None \<Rightarrow> s
      | Some e \<Rightarrow> TrimRight_space (take (length s - length e) s))"
  by pat_completeness auto
termination
proof (relation "measure length")
  show "wf (measure length)" by simp
next
  fix s e :: string
  assume "find (\<lambda>e. suffix e s) space_encodings = Some e"
  then have "e \<noteq> []" and "suffix e s"
    by (auto dest: find_mem space_encodings_not_Nil)
  then have "0 < length e" and "length e \<le> length s" by (auto dest: suffix_length_le)
  then have "length s - length e < length s" by arith
  then show "(take (length s - length e) s, s) \<in> measure length" by simp
qed

declare TrimLeft_space.simps [simp del] TrimRight_space.simps [simp del]

definition strings_TrimSpace :: "string \<Rightarrow> string" where
  "strings_TrimSpace s = TrimRight_space (TrimLeft_space s)"

text \<open>\<^verbatim>\<open>strings.Index(s, sep)\<close>: the index of the first occurrence of \<open>sep\<close> in \<open>s\<close>;
  Go's \<open>-1\<close> is \<open>None\<close>.\<close>

fun strings_Index :: "string \<Rightarrow> string \<Rightarrow> nat option" where
  "strings_Index [] sep = (if sep = [] then Some 0 else None)"
| "strings_Index (c # cs) sep =
     (if prefix sep (c # cs) then Some 0 else map_option Suc (strings_Index cs sep))"

text \<open>\<^verbatim>\<open>strings.HasPrefix\<close> and \<^verbatim>\<open>strings.TrimPrefix\<close>.\<close>

definition strings_HasPrefix :: "string \<Rightarrow> string \<Rightarrow> bool" where
  "strings_HasPrefix s p = prefix p s"

definition strings_TrimPrefix :: "string \<Rightarrow> string \<Rightarrow> string" where
  "strings_TrimPrefix s p = (if strings_HasPrefix s p then drop (length p) s else s)"

lemma strings_Index_bound:
  "strings_Index s sep = Some i \<Longrightarrow> i + length sep \<le> length s"
proof (induction s arbitrary: i)
  case Nil
  then show ?case by (simp split: if_splits)
next
  case (Cons c cs)
  show ?case
  proof (cases "prefix sep (c # cs)")
    case True
    with Cons.prems have "i = 0" by simp
    moreover from True have "length sep \<le> length (c # cs)" by (rule prefix_length_le)
    ultimately show ?thesis by simp
  next
    case False
    with Cons.prems obtain j where j: "strings_Index cs sep = Some j" "i = Suc j"
      by auto
    from Cons.IH[OF j(1)] j(2) show ?thesis by simp
  qed
qed

text \<open>\<^verbatim>\<open>strings.Split(s, sep)\<close>: the substrings between the occurrences of \<open>sep\<close>.
  With an empty separator Go splits after each character.\<close>

function strings_Split :: "string \<Rightarrow> string \<Rightarrow> string list" where
  "strings_Split s sep =
     (if sep = [] then map (\<lambda>c. [c]) s
      else case strings_Index s sep of
             None \<Rightarrow> [s]
           | Some i \<Rightarrow> take i s # strings_Split (drop (i + length sep) s) sep)"
  by pat_completeness auto
termination
proof (relation "measure (\<lambda>(s, sep). length s)")
  show "wf (measure (\<lambda>(s, sep). length s))" by simp
next
  fix s sep :: string and i
  assume "sep \<noteq> []" and "strings_Index s sep = Some i"
  then have "i + length sep \<le> length s" and "0 < length sep"
    by (auto dest: strings_Index_bound)
  then have "length s - (i + length sep) < length s" by arith
  then show "((drop (i + length sep) s, sep), (s, sep)) \<in> measure (\<lambda>(s, sep). length s)"
    by simp
qed

declare strings_Split.simps [simp del]

subsection \<open>The dependency specifier parser (resolver.go)\<close>

fun parseDependency_seps :: "string \<Rightarrow> string list \<Rightarrow> string" where
  "parseDependency_seps dep [] = dep"
| "parseDependency_seps dep (sep # seps) =
     (case strings_Index dep sep of
        Some idx \<Rightarrow> strings_TrimSpace (take idx dep)
      | None \<Rightarrow> parseDependency_seps dep seps)"

definition parseDependency :: "string \<Rightarrow> string" where
  "parseDependency dep =
     parseDependency_seps (strings_TrimSpace dep) [''>='', ''<='', ''='', ''>'', ''<'']"

subsection \<open>Version comparison (manager.go)\<close>

text \<open>
  \<^verbatim>\<open>fmt.Sscanf(part, "%d", &n)\<close>: white space is skipped, a newline being an error; an
  optional sign is accepted; the token is the longest run of decimal digits that
  follows. No digit and a value outside the 64-bit \<^verbatim>\<open>int\<close> are errors. \<^verbatim>\<open>compareVersions\<close>
  ignores the error: the variable keeps its zero value. What follows the token is
  not read.
\<close>

definition isDigit :: "char \<Rightarrow> bool" where
  "isDigit c = (c \<in> set ''0123456789'')"

text \<open>The value of a decimal digit is its position in the string of digits.\<close>

definition digit_value :: "char \<Rightarrow> int" where
  "digit_value c = int (length (takeWhile (\<lambda>d. d \<noteq> c) ''0123456789''))"

fun decimal :: "int \<Rightarrow> string \<Rightarrow> int" where
  "decimal acc [] = acc"
| "decimal acc (c # cs) = decimal (10 * acc + digit_value c) cs"

function SkipSpace :: "string \<Rightarrow> string option" where
  "SkipSpace s =
     (if s \<noteq> [] \<and> hd s = CHR 0x0A then None
      else case find (\<lambda>e. prefix e s) space_encodings of
             None \<Rightarrow> Some s
           | Some e \<Rightarrow> SkipSpace (drop (length e) s))"
  by pat_completeness auto
termination
proof (relation "measure length")
  show "wf (measure length)" by simp
next
  fix s e :: string
  assume "find (\<lambda>e. prefix e s) space_encodings = Some e"
  then have "e \<noteq> []" and "prefix e s"
    by (auto dest: find_mem space_encodings_not_Nil)
  then have "0 < length e" and "length e \<le> length s" by (auto dest: prefix_length_le)
  then have "length s - length e < length s" by arith
  then show "(drop (length e) s, s) \<in> measure length" by simp
qed

declare SkipSpace.simps [simp del]

definition Sscanf_d :: "string \<Rightarrow> int option" where
  "Sscanf_d s =
     (case SkipSpace s of
        None \<Rightarrow> None
      | Some s1 \<Rightarrow>
          let neg = (s1 \<noteq> [] \<and> hd s1 = CHR ''-'');
              s2 = (if s1 \<noteq> [] \<and> (hd s1 = CHR ''+'' \<or> hd s1 = CHR ''-'') then tl s1 else s1);
              tok = takeWhile isDigit s2;
              v = (if neg then - decimal 0 tok else decimal 0 tok)
          in if tok = [] then None
             else if v < - 9223372036854775808 \<or> 9223372036854775807 < v then None
             else Some v)"

text \<open>The value \<^verbatim>\<open>n1\<close> (or \<^verbatim>\<open>n2\<close>) of one iteration: declared zero, scanned when the
  index is in range.\<close>

definition scan_part :: "string list \<Rightarrow> nat \<Rightarrow> int" where
  "scan_part parts i =
     (if i < length parts
      then (case Sscanf_d (parts ! i) of Some n \<Rightarrow> n | None \<Rightarrow> 0)
      else 0)"

function compareVersions_loop :: "string list \<Rightarrow> string list \<Rightarrow> nat \<Rightarrow> nat \<Rightarrow> int" where
  "compareVersions_loop parts1 parts2 maxLen i =
     (if i < maxLen then
        let n1 = scan_part parts1 i; n2 = scan_part parts2 i in
        if n1 < n2 then - 1
        else if n1 > n2 then 1
        else compareVersions_loop parts1 parts2 maxLen (Suc i)
      else 0)"
  by pat_completeness auto
termination
  by (relation "measure (\<lambda>(parts1, parts2, maxLen, i). maxLen - i)") auto

declare compareVersions_loop.simps [simp del]

definition compareVersions :: "string \<Rightarrow> string \<Rightarrow> int" where
  "compareVersions v1 v2 =
     (let parts1 = strings_Split v1 ''.'';
          parts2 = strings_Split v2 ''.'';
          maxLen = (if length parts2 > length parts1 then length parts2 else length parts1)
      in compareVersions_loop parts1 parts2 maxLen 0)"

text \<open>
  The spec's words for \<^verbatim>\<open>compareVersions\<close>: the numeric values of the segments are
  compared one by one, a missing trailing segment counting as 0.
\<close>

definition segment_value :: "string \<Rightarrow> int" where
  "segment_value s = (case Sscanf_d s of Some n \<Rightarrow> n | None \<Rightarrow> 0)"

fun compare_padded :: "int list \<Rightarrow> int list \<Rightarrow> int" where
  "compare_padded [] [] = 0"
| "compare_padded (x # xs) [] =
     (if x < 0 then - 1 else if x > 0 then 1 else compare_padded xs [])"
| "compare_padded [] (y # ys) =
     (if 0 < y then - 1 else if 0 > y then 1 else compare_padded [] ys)"
| "compare_padded (x # xs) (y # ys) =
     (if x < y then - 1 else if x > y then 1 else compare_padded xs ys)"

subsection \<open>Paths (path/filepath)\<close>

text \<open>
  \<^verbatim>\<open>filepath.Clean\<close> drops empty and \<open>.\<close> elements and resolves \<open>..\<close> against the element
  before it; \<^verbatim>\<open>filepath.Dir\<close> cleans what precedes the last separator; \<^verbatim>\<open>filepath.Join\<close>
  of two elements ignores an empty one and cleans the result.
\<close>

definition join_slash :: "string list \<Rightarrow> string" where
  "join_slash xs = (case xs of [] \<Rightarrow> [] | x # ys \<Rightarrow> x @ concat (map (\<lambda>y. ''/'' @ y) ys))"

fun clean_step :: "bool \<Rightarrow> string \<Rightarrow> string list \<Rightarrow> string list" where
  "clean_step rooted c acc =
     (if c = '''' \<or> c = ''.'' then acc
      else if c = ''..'' then
        (case acc of
           [] \<Rightarrow> if rooted then [] else [''..'']
         | a # as \<Rightarrow> if a = ''..'' then ''..'' # acc else as)
      else c # acc)"

definition filepath_Clean :: "string \<Rightarrow> string" where
  "filepath_Clean p =
     (if p = '''' then ''.''
      else
        let rooted = (hd p = CHR ''/'');
            comps = rev (fold (clean_step rooted) (strings_Split p ''/'') [])
        in if rooted then ''/'' @ join_slash comps
           else if comps = [] then ''.'' else join_slash comps)"

definition filepath_Dir :: "string \<Rightarrow> string" where
  "filepath_Dir p = filepath_Clean (rev (dropWhile (\<lambda>c. c \<noteq> CHR ''/'') (rev p)))"

definition filepath_Join :: "string \<Rightarrow> string \<Rightarrow> string" where
  "filepath_Join a b =
     (let elems = filter (\<lambda>s. s \<noteq> '''') [a, b]
      in if elems = [] then '''' else filepath_Clean (join_slash elems))"


subsection \<open>The file system\<close>

text \<open>
  The file system is a table from the list of the directory names that lead from
  the root to an entry, to the node of that entry; the root, the empty list, is a
  directory and the working directory. An entry for which \<open>readonly\<close> holds cannot be
  created, truncated or removed (a read-only mount, an immutable file): this is how
  a system call fails for a reason the engine does not control. File modes are not
  modelled.
\<close>

datatype node = Dir | Reg string | Symlink string

record filesystem =
  nodes :: "(string list \<times> node) list"
  readonly :: "string list \<Rightarrow> bool"

definition fs_lookup :: "filesystem \<Rightarrow> string list \<Rightarrow> node option" where
  "fs_lookup fs k = (if k = [] then Some Dir else map_of (nodes fs) k)"

definition fs_delete :: "filesystem \<Rightarrow> string list \<Rightarrow> filesystem" where
  "fs_delete fs k = fs\<lparr>nodes := filter (\<lambda>r. fst r \<noteq> k) (nodes fs)\<rparr>"

definition fs_put :: "filesystem \<Rightarrow> string list \<Rightarrow> node \<Rightarrow> filesystem" where
  "fs_put fs k n = fs\<lparr>nodes := (k, n) # filter (\<lambda>r. fst r \<noteq> k) (nodes fs)\<rparr>"

definition has_children :: "filesystem \<Rightarrow> string list \<Rightarrow> bool" where
  "has_children fs k = list_ex (\<lambda>r. strict_prefix k (fst r)) (nodes fs)"

text \<open>
  Path resolution, as the kernel does it for every system call below. \<open>walk\<close> goes
  through the elements of a path from the directory \<open>cur\<close>: an empty element and \<open>.\<close>
  stay, \<open>..\<close> goes to the parent, a directory is entered, a symbolic link is replaced
  by the elements of its target, at most 40 times in one resolution. Every element
  but the last must lead to a directory. The last element may be missing, and when
  it is a symbolic link it is followed only if \<open>follow\<close> holds. The result is the
  place of the entry the path names.
\<close>

fun walk ::
  "filesystem \<Rightarrow> nat \<Rightarrow> bool \<Rightarrow> string list \<Rightarrow> string list \<Rightarrow> os_error + string list" where
  "walk fs fuel follow cur [] = Inr cur"
| "walk fs fuel follow cur (c # cs) =
     (if c = '''' \<or> c = ''.'' then walk fs fuel follow cur cs
      else if c = ''..'' then walk fs fuel follow (butlast cur) cs
      else
        case fs_lookup fs (cur @ [c]) of
          None \<Rightarrow> if cs = [] then Inr (cur @ [c]) else Inl ErrNotExist
        | Some Dir \<Rightarrow> walk fs fuel follow (cur @ [c]) cs
        | Some (Reg content) \<Rightarrow> if cs = [] then Inr (cur @ [c]) else Inl ErrNotDir
        | Some (Symlink t) \<Rightarrow>
            if cs = [] \<and> \<not> follow then Inr (cur @ [c])
            else (case fuel of
                    0 \<Rightarrow> Inl ErrLoop
                  | Suc n \<Rightarrow>
                      walk fs n follow (if strings_HasPrefix t ''/'' then [] else cur)
                        (strings_Split t ''/'' @ cs)))"

text \<open>The elements of a path, and the elements without the trailing separators: a
  system call that names the entry to create or remove resolves the latter and
  never follows a link in the last place.\<close>

definition elements :: "string \<Rightarrow> string list" where
  "elements p = strings_Split p ''/''"

definition entry_elements :: "string \<Rightarrow> string list" where
  "entry_elements p = rev (dropWhile (\<lambda>c. c = '''') (rev (elements p)))"

definition lookup_path :: "filesystem \<Rightarrow> bool \<Rightarrow> string \<Rightarrow> os_error + string list" where
  "lookup_path fs follow p =
     (if p = '''' then Inl ErrNotExist else walk fs 40 follow [] (elements p))"

definition lookup_entry :: "filesystem \<Rightarrow> string \<Rightarrow> os_error + string list" where
  "lookup_entry fs p =
     (if p = '''' then Inl ErrNotExist else walk fs 40 False [] (entry_elements p))"

text \<open>\<^verbatim>\<open>os.Stat\<close> and \<^verbatim>\<open>os.Lstat\<close>: \<open>stat_node fs True\<close> and \<open>stat_node fs False\<close> give
  the node they describe; \<open>os_Stat\<close> is the test \<^verbatim>\<open>err == nil\<close> on \<^verbatim>\<open>os.Stat\<close>.\<close>

definition stat_node :: "filesystem \<Rightarrow> bool \<Rightarrow> string \<Rightarrow> os_error + node" where
  "stat_node fs follow p =
     (case lookup_path fs follow p of
        Inl err \<Rightarrow> Inl err
      | Inr k \<Rightarrow> (case fs_lookup fs k of None \<Rightarrow> Inl ErrNotExist | Some n \<Rightarrow> Inr n))"

definition os_Stat :: "filesystem \<Rightarrow> string \<Rightarrow> bool" where
  "os_Stat fs p = (case stat_node fs True p of Inl err \<Rightarrow> False | Inr n \<Rightarrow> True)"

text \<open>\<^verbatim>\<open>os.Open\<close> and the read of the whole file. A directory opens, and the read
  fails.\<close>

definition os_ReadFile :: "filesystem \<Rightarrow> string \<Rightarrow> os_error + string" where
  "os_ReadFile fs p =
     (case stat_node fs True p of
        Inl err \<Rightarrow> Inl err
      | Inr (Reg content) \<Rightarrow> Inr content
      | Inr Dir \<Rightarrow> Inl ErrIsDir
      | Inr (Symlink t) \<Rightarrow> Inl ErrLoop)"

text \<open>\<open>is_readonly\<close>: the entry a path names, the link itself when it is a symbolic
  link, is read-only.\<close>

definition is_readonly :: "filesystem \<Rightarrow> string \<Rightarrow> bool" where
  "is_readonly fs p = (case lookup_entry fs p of Inl err \<Rightarrow> False | Inr k \<Rightarrow> readonly fs k)"

text \<open>
  \<^verbatim>\<open>os.Remove\<close> calls \<^verbatim>\<open>unlink\<close> and, when that fails, \<^verbatim>\<open>rmdir\<close>, and reports the error
  of \<^verbatim>\<open>rmdir\<close> unless it is \<^verbatim>\<open>ENOTDIR\<close>. A symbolic link is removed, not its target; a
  path with a trailing separator must name a directory; the root, and a path that
  ends in \<open>.\<close> or \<open>..\<close>, are refused.
\<close>

definition os_Remove :: "filesystem \<Rightarrow> string \<Rightarrow> os_error option \<times> filesystem" where
  "os_Remove fs p =
     (case lookup_entry fs p of
        Inl err \<Rightarrow> (Some err, fs)
      | Inr k \<Rightarrow>
          (case fs_lookup fs k of
             None \<Rightarrow> (Some ErrNotExist, fs)
           | Some n \<Rightarrow>
               if n \<noteq> Dir \<and> entry_elements p \<noteq> elements p then (Some ErrNotDir, fs)
               else if entry_elements p = [] then (Some ErrBusy, fs)
               else if last (entry_elements p) = ''.'' then (Some ErrInvalid, fs)
               else if last (entry_elements p) = ''..'' then (Some ErrNotEmpty, fs)
               else if readonly fs k then (Some ErrPermission, fs)
               else if n = Dir \<and> has_children fs k then (Some ErrNotEmpty, fs)
               else (None, fs_delete fs k)))"

text \<open>\<^verbatim>\<open>os.Mkdir\<close>: the entry must be missing; a trailing separator is allowed.\<close>

definition os_Mkdir :: "filesystem \<Rightarrow> string \<Rightarrow> os_error option \<times> filesystem" where
  "os_Mkdir fs p =
     (case lookup_entry fs p of
        Inl err \<Rightarrow> (Some err, fs)
      | Inr k \<Rightarrow>
          (case fs_lookup fs k of
             Some n \<Rightarrow> (Some ErrExist, fs)
           | None \<Rightarrow>
               if readonly fs k then (Some ErrPermission, fs)
               else (None, fs_put fs k Dir)))"

text \<open>
  \<^verbatim>\<open>os.MkdirAll\<close>, as the library has it: nothing to do when \<^verbatim>\<open>os.Stat\<close> finds a
  directory, \<^verbatim>\<open>ENOTDIR\<close> when it finds anything else; otherwise the parent, the path
  up to the separator before its last element, is made first when it is not empty,
  then \<^verbatim>\<open>os.Mkdir\<close> is called, whose error is dropped when \<^verbatim>\<open>os.Lstat\<close> then finds a
  directory.
\<close>

definition mkdir_parent :: "string \<Rightarrow> string" where
  "mkdir_parent path =
     rev (tl (dropWhile (\<lambda>c. c \<noteq> CHR ''/'') (dropWhile (\<lambda>c. c = CHR ''/'') (rev path))))"

lemma mkdir_parent_shorter: "mkdir_parent path \<noteq> '''' \<Longrightarrow> length (mkdir_parent path) < length path"
proof -
  let ?r = "dropWhile (\<lambda>c. c = CHR ''/'') (rev path)"
  let ?r2 = "dropWhile (\<lambda>c. c \<noteq> CHR ''/'') ?r"
  assume "mkdir_parent path \<noteq> ''''"
  then have "?r2 \<noteq> []" unfolding mkdir_parent_def by (metis list.sel(2) rev.simps(1))
  then have "length (tl ?r2) < length ?r2" by simp
  also have "length ?r2 \<le> length ?r" by (rule length_dropWhile_le)
  also have "length ?r \<le> length (rev path)" by (rule length_dropWhile_le)
  finally show ?thesis by (simp add: mkdir_parent_def)
qed

function os_MkdirAll :: "filesystem \<Rightarrow> string \<Rightarrow> os_error option \<times> filesystem" where
  "os_MkdirAll fs path =
     (case stat_node fs True path of
        Inr n \<Rightarrow> if n = Dir then (None, fs) else (Some ErrNotDir, fs)
      | Inl e \<Rightarrow>
          (case (if mkdir_parent path = '''' then (None, fs)
                 else os_MkdirAll fs (mkdir_parent path)) of
             (Some err, fs1) \<Rightarrow> (Some err, fs1)
           | (None, fs1) \<Rightarrow>
               (case os_Mkdir fs1 path of
                  (None, fs2) \<Rightarrow> (None, fs2)
                | (Some err, fs2) \<Rightarrow>
                    if stat_node fs2 False path = Inr Dir then (None, fs2)
                    else (Some err, fs2))))"
  by pat_completeness auto
termination
  by (relation "measure (\<lambda>(fs, path). length path)") (auto dest: mkdir_parent_shorter)

declare os_MkdirAll.simps [simp del]

text \<open>
  \<^verbatim>\<open>os.Create\<close> and \<^verbatim>\<open>os.OpenFile\<close> with \<^verbatim>\<open>O_CREATE|O_WRONLY|O_TRUNC\<close>: a symbolic link in
  the last place is followed, so the file that is created or truncated is the one
  the link leads to. With a trailing separator the call fails, with \<^verbatim>\<open>EISDIR\<close> once the
  directory of the entry is found. The result is the place of the open file;
  \<^verbatim>\<open>io.Copy\<close> into the open file then stores the content there.
\<close>

definition os_Create :: "filesystem \<Rightarrow> string \<Rightarrow> (os_error + string list) \<times> filesystem" where
  "os_Create fs p =
     (if p = '''' then (Inl ErrNotExist, fs)
      else if entry_elements p \<noteq> elements p then
        (case walk fs 40 True [] (butlast (entry_elements p) @ ['''']) of
           Inl err \<Rightarrow> (Inl err, fs)
         | Inr k \<Rightarrow> (Inl ErrIsDir, fs))
      else
        case lookup_path fs True p of
          Inl err \<Rightarrow> (Inl err, fs)
        | Inr k \<Rightarrow>
            (case fs_lookup fs k of
               Some Dir \<Rightarrow> (Inl ErrIsDir, fs)
             | Some (Symlink t) \<Rightarrow> (Inl ErrLoop, fs)
             | Some (Reg content) \<Rightarrow>
                 if readonly fs k then (Inl ErrPermission, fs)
                 else (Inr k, fs_put fs k (Reg ''''))
             | None \<Rightarrow>
                 if readonly fs k then (Inl ErrPermission, fs)
                 else (Inr k, fs_put fs k (Reg ''''))))"

definition io_Copy :: "filesystem \<Rightarrow> string list \<Rightarrow> string \<Rightarrow> filesystem" where
  "io_Copy fs k content = fs_put fs k (Reg content)"

text \<open>\<^verbatim>\<open>os.Symlink\<close>: the entry must be missing, and the path must not end in a
  separator; an empty target is refused.\<close>

definition os_Symlink :: "filesystem \<Rightarrow> string \<Rightarrow> string \<Rightarrow> os_error option \<times> filesystem" where
  "os_Symlink fs linkname p =
     (if linkname = '''' then (Some ErrNotExist, fs)
      else case lookup_entry fs p of
        Inl err \<Rightarrow> (Some err, fs)
      | Inr k \<Rightarrow>
          (case fs_lookup fs k of
             Some n \<Rightarrow> (Some ErrExist, fs)
           | None \<Rightarrow>
               if entry_elements p \<noteq> elements p then (Some ErrNotExist, fs)
               else if readonly fs k then (Some ErrPermission, fs)
               else (None, fs_put fs k (Symlink linkname))))"
subsection \<open>The package store (the \<^verbatim>\<open>Database\<close> type)\<close>

record pkg_row =
  p_version :: string
  p_description :: string
  p_dependencies :: "string list"
  p_files :: "string list"
  p_checksum :: string
  p_size :: int

record inst_row =
  i_version :: string
  i_files :: "string list"

record Database =
  packages :: "(string \<times> pkg_row) list"
  installed :: "(string \<times> inst_row) list"
  files :: "(string \<times> string) list"

text \<open>\<^verbatim>\<open>INSERT OR REPLACE\<close> on a table with a primary key: the row with the key is
  deleted and the new row is inserted.\<close>

definition insert_or_replace :: "'k \<Rightarrow> 'v \<Rightarrow> ('k \<times> 'v) list \<Rightarrow> ('k \<times> 'v) list" where
  "insert_or_replace k v tbl = filter (\<lambda>r. fst r \<noteq> k) tbl @ [(k, v)]"

definition IsInstalled :: "Database \<Rightarrow> string \<Rightarrow> bool" where
  "IsInstalled d name = (length (filter (\<lambda>r. fst r = name) (installed d)) > 0)"

definition GetDependencies :: "Database \<Rightarrow> string \<Rightarrow> string list option" where
  "GetDependencies d name = map_option p_dependencies (map_of (packages d) name)"

record PackageInfo =
  Name :: string
  Version :: string
  Description :: string
  Dependencies :: "string list"
  Files :: "string list"
  Checksum :: string
  Size :: int
  Installed :: bool
  PreRemove :: string
  PostRemove :: string

definition AddPackage :: "Database \<Rightarrow> PackageInfo \<Rightarrow> Database" where
  "AddPackage d pkg =
     d\<lparr>packages :=
         insert_or_replace (Name pkg)
           \<lparr>p_version = Version pkg, p_description = Description pkg,
            p_dependencies = Dependencies pkg, p_files = Files pkg,
            p_checksum = Checksum pkg, p_size = Size pkg\<rparr>
           (packages d)\<rparr>"

text \<open>\<^verbatim>\<open>GetPackage\<close> scans the seven columns of the catalog row into a zero
  \<^verbatim>\<open>PackageInfo\<close>; the other fields keep their zero values.\<close>

definition GetPackage :: "Database \<Rightarrow> string \<Rightarrow> PackageInfo option" where
  "GetPackage d name =
     map_option
       (\<lambda>row. \<lparr>Name = name, Version = p_version row, Description = p_description row,
               Dependencies = p_dependencies row, Files = p_files row,
               Checksum = p_checksum row, Size = p_size row, Installed = False,
               PreRemove = '''', PostRemove = ''''\<rparr>)
       (map_of (packages d) name)"

definition RecordInstallation :: "Database \<Rightarrow> string \<Rightarrow> string \<Rightarrow> string list \<Rightarrow> Database" where
  "RecordInstallation d name version fls =
     d\<lparr>installed := insert_or_replace name \<lparr>i_version = version, i_files = fls\<rparr> (installed d),
       files := fold (\<lambda>file tbl. insert_or_replace file name tbl) fls (files d)\<rparr>"

definition RemoveInstallation :: "Database \<Rightarrow> string \<Rightarrow> Database" where
  "RemoveInstallation d name =
     d\<lparr>files := filter (\<lambda>r. snd r \<noteq> name) (files d),
       installed := filter (\<lambda>r. fst r \<noteq> name) (installed d)\<rparr>"

definition GetInstalledFiles :: "Database \<Rightarrow> string \<Rightarrow> string list option" where
  "GetInstalledFiles d name = map_option i_files (map_of (installed d) name)"

text \<open>
  \<^verbatim>\<open>GetInstalledPackage\<close> selects seven columns of the ledger row left-joined with the
  catalog row and scans them into a zero \<^verbatim>\<open>PackageInfo\<close>. The
  dependencies column is scanned straight into the \<^verbatim>\<open>[]string\<close> field: what
  \<^verbatim>\<open>database/sql\<close> does with that is the parameter \<open>scan\<close> (\<open>None\<close> when \<^verbatim>\<open>Scan\<close> reports
  an error). No column holds a lifecycle script and \<^verbatim>\<open>RecordInstallation\<close> stores
  none, so \<^verbatim>\<open>PreRemove\<close> and \<^verbatim>\<open>PostRemove\<close> keep their zero value.
\<close>

definition GetInstalledPackage ::
  "(string list \<Rightarrow> string list option) \<Rightarrow> Database \<Rightarrow> string \<Rightarrow> PackageInfo option" where
  "GetInstalledPackage scan d name =
     (case map_of (installed d) name of
        None \<Rightarrow> None
      | Some irow \<Rightarrow>
          let p = map_of (packages d) name in
          (case scan (case p of None \<Rightarrow> [] | Some row \<Rightarrow> p_dependencies row) of
             None \<Rightarrow> None
           | Some deps \<Rightarrow>
               Some \<lparr>Name = name, Version = i_version irow,
                     Description = (case p of None \<Rightarrow> '''' | Some row \<Rightarrow> p_description row),
                     Dependencies = deps, Files = i_files irow,
                     Checksum = (case p of None \<Rightarrow> '''' | Some row \<Rightarrow> p_checksum row),
                     Size = (case p of None \<Rightarrow> 0 | Some row \<Rightarrow> p_size row),
                     Installed = True, PreRemove = '''', PostRemove = ''''\<rparr>))"

text \<open>
  \<^verbatim>\<open>GetReverseDependencies\<close> joins the ledger with the catalog and keeps the installed
  packages one of whose specifiers names \<open>name\<close>. The query has no \<^verbatim>\<open>ORDER BY\<close>; SQLite
  reads the ledger through the index of its primary key, so the rows come by name,
  compared byte by byte. \<open>revdep_name\<close> is the body of the inner loop up to the
  comparison: three \<^verbatim>\<open>strings.Split(...)[0]\<close> and a trim. With a non-empty separator
  \<^verbatim>\<open>strings.Split\<close> returns at least one element (\<open>strings_Split_not_Nil\<close>), so the index
  0 is in range.
\<close>

definition revdep_name :: "string \<Rightarrow> string" where
  "revdep_name dep =
     (let depName = hd (strings_Split dep ''>='');
          depName = hd (strings_Split depName ''<='');
          depName = hd (strings_Split depName ''='')
      in strings_TrimSpace depName)"

definition GetReverseDependencies :: "Database \<Rightarrow> string \<Rightarrow> string list" where
  "GetReverseDependencies d name =
     map fst
       (filter (\<lambda>(pkgName, deps). list_ex (\<lambda>dep. revdep_name dep = name) deps)
         (concat (map (\<lambda>i. map (\<lambda>p. (fst i, p_dependencies (snd p)))
                              (filter (\<lambda>p. fst p = fst i) (packages d)))
                      (sort_key fst (installed d)))))"

subsection \<open>The dependency resolver (resolver.go)\<close>

record Resolver =
  resolved :: "string set"
  unresolved :: "string set"
  order :: "string list"

text \<open>
  \<^verbatim>\<open>Resolver.resolve\<close> recurses through the dependency loop. The first argument bounds
  the depth of the recursion; \<open>None\<close> means the bound was reached. \<open>resolve_deps\<close> is
  the \<^verbatim>\<open>for _, dep := range deps\<close> loop of \<^verbatim>\<open>resolve\<close>; \<open>mark_resolved\<close> is the
  three statements that end both successful paths of \<^verbatim>\<open>resolve\<close>.
\<close>

definition mark_resolved :: "string \<Rightarrow> Resolver \<Rightarrow> Resolver" where
  "mark_resolved pkg r =
     r\<lparr>resolved := insert pkg (resolved r),
       unresolved := unresolved r - {pkg},
       order := order r @ [pkg]\<rparr>"

fun resolve :: "nat \<Rightarrow> Database \<Rightarrow> string \<Rightarrow> Resolver \<Rightarrow> (error + Resolver) option"
  and resolve_deps :: "nat \<Rightarrow> Database \<Rightarrow> string list \<Rightarrow> Resolver \<Rightarrow> (error + Resolver) option"
where
  "resolve 0 d pkg r = None"
| "resolve (Suc n) d pkg r =
     (if pkg \<in> unresolved r then Some (Inl (CircularDependency pkg))
      else if pkg \<in> resolved r then Some (Inr r)
      else
        let r1 = r\<lparr>unresolved := insert pkg (unresolved r)\<rparr> in
        case GetDependencies d pkg of
          None \<Rightarrow> Some (Inr (mark_resolved pkg r1))
        | Some deps \<Rightarrow>
            (case resolve_deps n d deps r1 of
               None \<Rightarrow> None
             | Some (Inl e) \<Rightarrow> Some (Inl e)
             | Some (Inr r2) \<Rightarrow> Some (Inr (mark_resolved pkg r2))))"
| "resolve_deps n d [] r = Some (Inr r)"
| "resolve_deps n d (dep # deps) r =
     (let depName = parseDependency dep in
      if IsInstalled d depName
      then resolve_deps n d deps (r\<lparr>resolved := insert depName (resolved r)\<rparr>)
      else case resolve n d depName r of
             None \<Rightarrow> None
           | Some (Inl e) \<Rightarrow> Some (Inl e)
           | Some (Inr r') \<Rightarrow> resolve_deps n d deps r')"

text \<open>The three loops of \<^verbatim>\<open>Resolver.Resolve\<close>.\<close>

fun mark_installed :: "Database \<Rightarrow> string list \<Rightarrow> Resolver \<Rightarrow> Resolver" where
  "mark_installed d [] r = r"
| "mark_installed d (pkg # pkgs) r =
     mark_installed d pkgs
       (if IsInstalled d pkg then r\<lparr>resolved := insert pkg (resolved r)\<rparr> else r)"

fun resolve_each :: "nat \<Rightarrow> Database \<Rightarrow> string list \<Rightarrow> Resolver \<Rightarrow> (error + Resolver) option" where
  "resolve_each n d [] r = Some (Inr r)"
| "resolve_each n d (pkg # pkgs) r =
     (if pkg \<in> resolved r then resolve_each n d pkgs r
      else case resolve n d pkg r of
             None \<Rightarrow> None
           | Some (Inl e) \<Rightarrow> Some (Inl e)
           | Some (Inr r') \<Rightarrow> resolve_each n d pkgs r')"

definition Resolve_bounded :: "nat \<Rightarrow> Database \<Rightarrow> string list \<Rightarrow> (error + string list) option" where
  "Resolve_bounded n d pkgs =
     (let r0 = mark_installed d pkgs \<lparr>resolved = {}, unresolved = {}, order = []\<rparr> in
      case resolve_each n d pkgs r0 of
        None \<Rightarrow> None
      | Some (Inl e) \<Rightarrow> Some (Inl e)
      | Some (Inr r) \<Rightarrow> Some (Inr (filter (\<lambda>pkg. \<not> IsInstalled d pkg) (order r))))"

text \<open>The recursion of \<^verbatim>\<open>resolve\<close> never goes deeper than the number of catalog rows
  plus one (the names on the stack are distinct and all but the last are in the
  catalog), so this bound is never reached; see \<open>Resolve_returns\<close>.\<close>

definition Resolve :: "Database \<Rightarrow> string list \<Rightarrow> (error + string list) option" where
  "Resolve d pkgs = Resolve_bounded (Suc (length (packages d))) d pkgs"

subsection \<open>The transaction engine (manager.go)\<close>

text \<open>
  An archive is what \<^verbatim>\<open>archive/tar\<close> over \<^verbatim>\<open>compress/gzip\<close> yields from the bytes of the
  file: the entries in order, each with its body (\<open>BodyOK\<close> is false when reading the
  body fails), and whether the stream ends with \<^verbatim>\<open>io.EOF\<close> (true) or with an error.
  \<open>TypeOther\<close> stands for every type flag the engine has no case for (hard links,
  devices, FIFOs).
\<close>

record PackageMetadata =
  md_Name :: string
  md_Version :: string
  md_Description :: string
  md_Dependencies :: "string list"
  md_Files :: "string list"
  md_Checksum :: string
  PreInstall :: string
  PostInstall :: string
  md_PreRemove :: string
  md_PostRemove :: string

datatype typeflag = TypeReg | TypeDir | TypeSymlink | TypeOther

record tar_entry =
  entry_Name :: string
  Typeflag :: typeflag
  Linkname :: string
  Body :: string
  BodyOK :: bool

datatype http_result = HttpError | HttpResponse nat string bool

record env =
  http_Get :: "string \<Rightarrow> http_result"
  sha256_hex :: "string \<Rightarrow> string"
  tar_stream :: "string \<Rightarrow> (tar_entry list \<times> bool) option"
  json_Decode :: "string \<Rightarrow> PackageMetadata option"
  sh :: "string \<Rightarrow> filesystem \<Rightarrow> bool \<times> filesystem"
  scan_dependencies :: "string list \<Rightarrow> string list option"

text \<open>\<open>Percent\<close> is the percentage as a whole number (the source's 0.25 is 25). A
  \<open>Manager\<close> with \<open>progressChan\<close> false has no channel registered. The \<open>world\<close> is
  what an operation can change: the file system, the store, the events sent on the
  channel and the scripts handed to the shell, each with the label of its hook.\<close>

record ProgressUpdate =
  Stage :: string
  Percent :: nat
  Message :: string

record Manager =
  repoURL :: string
  cacheDir :: string
  progressChan :: bool

record world =
  fsys :: filesystem
  db :: Database
  events :: "ProgressUpdate list"
  scripts :: "(string \<times> string) list"

definition emit :: "Manager \<Rightarrow> string \<Rightarrow> nat \<Rightarrow> string \<Rightarrow> world \<Rightarrow> world" where
  "emit m stage percent msg w =
     (if progressChan m
      then w\<lparr>events := events w @ [\<lparr>Stage = stage, Percent = percent, Message = msg\<rparr>]\<rparr>
      else w)"

text \<open>\<^verbatim>\<open>runScript\<close> writes the script to a temporary file and runs \<^verbatim>\<open>/bin/sh\<close> on it.
  \<open>sh e script f\<close> is the outcome on the file system \<open>f\<close>: whether \<^verbatim>\<open>cmd.Run\<close> returned
  no error, and the file system the script leaves. The temporary file is created
  and removed outside the modelled tree; a failure to create it counts as a
  failure of \<open>sh\<close>.\<close>

definition runScript :: "env \<Rightarrow> string \<Rightarrow> string \<Rightarrow> world \<Rightarrow> error option \<times> world" where
  "runScript e script name w =
     (let (ok, fs') = sh e script (fsys w);
          w' = w\<lparr>fsys := fs', scripts := scripts w @ [(name, script)]\<rparr>
      in (if ok then None else Some ExitError, w'))"

definition downloadPackage ::
  "env \<Rightarrow> Manager \<Rightarrow> string \<Rightarrow> string \<Rightarrow> world \<Rightarrow> (error + string) \<times> world" where
  "downloadPackage e m name version w =
     (let pkgFile = name @ ''-'' @ version @ ''.mixpkg'';
          pkgPath = filepath_Join (cacheDir m) pkgFile
      in if os_Stat (fsys w) pkgPath then (Inr pkgPath, w)
         else
           case http_Get e (repoURL m @ ''/'' @ pkgFile) of
             HttpError \<Rightarrow>
               if os_Stat (fsys w) (filepath_Join (cacheDir m) pkgFile)
               then (Inr (filepath_Join (cacheDir m) pkgFile), w)
               else (Inl (DownloadFailed NetError), w)
           | HttpResponse status body complete \<Rightarrow>
               if status \<noteq> 200 then (Inl (HTTPStatus status), w)
               else
                 let fs1 = snd (os_MkdirAll (fsys w) (cacheDir m)) in
                 case os_Create fs1 pkgPath of
                   (Inl err, fs2) \<Rightarrow> (Inl (OSError err), w\<lparr>fsys := fs2\<rparr>)
                 | (Inr out, fs2) \<Rightarrow>
                     if \<not> complete
                     then (Inl NetError, w\<lparr>fsys := snd (os_Remove fs2 pkgPath)\<rparr>)
                     else (Inr pkgPath, w\<lparr>fsys := io_Copy fs2 out body\<rparr>))"

definition verifyChecksum :: "env \<Rightarrow> string \<Rightarrow> string \<Rightarrow> world \<Rightarrow> error option" where
  "verifyChecksum e path expected w =
     (case os_ReadFile (fsys w) path of
        Inl err \<Rightarrow> Some (OSError err)
      | Inr content \<Rightarrow>
          let actual = sha256_hex e content in
          if actual \<noteq> expected then Some (ChecksumMismatch expected actual) else None)"

fun readPackageMetadata_loop :: "env \<Rightarrow> tar_entry list \<Rightarrow> bool \<Rightarrow> error + PackageMetadata" where
  "readPackageMetadata_loop e [] ok = (if ok then Inl MetadataNotFound else Inl TarError)"
| "readPackageMetadata_loop e (header # rest) ok =
     (if entry_Name header = ''metadata.json'' \<or> entry_Name header = ''./metadata.json''
      then (case (if BodyOK header then json_Decode e (Body header) else None) of
              None \<Rightarrow> Inl DecodeError
            | Some metadata \<Rightarrow> Inr metadata)
      else readPackageMetadata_loop e rest ok)"

definition readPackageMetadata :: "env \<Rightarrow> string \<Rightarrow> world \<Rightarrow> error + PackageMetadata" where
  "readPackageMetadata e pkgPath w =
     (case os_ReadFile (fsys w) pkgPath of
        Inl err \<Rightarrow> Inl (OSError err)
      | Inr bytes \<Rightarrow>
          (case tar_stream e bytes of
             None \<Rightarrow> Inl GzipError
           | Some (entries, ok) \<Rightarrow> readPackageMetadata_loop e entries ok))"

definition extractPackage :: "env \<Rightarrow> string \<Rightarrow> world \<Rightarrow> error + PackageMetadata" where
  "extractPackage e pkgPath w = readPackageMetadata e pkgPath w"

text \<open>The two prefix tests of \<^verbatim>\<open>installFiles\<close>, one after the other.\<close>

definition strip_files_prefix :: "string \<Rightarrow> string" where
  "strip_files_prefix name0 =
     (let name = (if strings_HasPrefix name0 ''files/''
                  then strings_TrimPrefix name0 ''files/'' else name0)
      in if strings_HasPrefix name ''./files/''
         then strings_TrimPrefix name ''./files/'' else name)"

fun installFiles_loop ::
  "tar_entry list \<Rightarrow> bool \<Rightarrow> string list \<Rightarrow> filesystem
     \<Rightarrow> (string list \<times> error option) \<times> filesystem" where
  "installFiles_loop [] ok installedFiles fs =
     ((installedFiles, if ok then None else Some TarError), fs)"
| "installFiles_loop (header # rest) ok installedFiles fs =
     (if entry_Name header = ''metadata.json'' \<or> strings_HasPrefix (entry_Name header) ''scripts/''
      then installFiles_loop rest ok installedFiles fs
      else
        let name = strip_files_prefix (entry_Name header) in
        if name = '''' \<or> name = ''.'' then installFiles_loop rest ok installedFiles fs
        else
          let target = ''/'' @ name in
          case Typeflag header of
            TypeDir \<Rightarrow>
              (case os_MkdirAll fs target of
                 (Some err, fs1) \<Rightarrow> ((installedFiles, Some (OSError err)), fs1)
               | (None, fs1) \<Rightarrow> installFiles_loop rest ok installedFiles fs1)
          | TypeReg \<Rightarrow>
              (case os_MkdirAll fs (filepath_Dir target) of
                 (Some err, fs1) \<Rightarrow> ((installedFiles, Some (OSError err)), fs1)
               | (None, fs1) \<Rightarrow>
                   (case os_Create fs1 target of
                      (Inl err, fs2) \<Rightarrow> ((installedFiles, Some (OSError err)), fs2)
                    | (Inr outFile, fs2) \<Rightarrow>
                        if \<not> BodyOK header then ((installedFiles, Some TarError), fs2)
                        else installFiles_loop rest ok (installedFiles @ [target])
                               (io_Copy fs2 outFile (Body header))))
          | TypeSymlink \<Rightarrow>
              (let fs1 = snd (os_Remove fs target) in
               case os_Symlink fs1 (Linkname header) target of
                 (Some err, fs2) \<Rightarrow> ((installedFiles, Some (OSError err)), fs2)
               | (None, fs2) \<Rightarrow> installFiles_loop rest ok (installedFiles @ [target]) fs2)
          | TypeOther \<Rightarrow> installFiles_loop rest ok installedFiles fs)"

definition installFiles ::
  "env \<Rightarrow> string \<Rightarrow> world \<Rightarrow> (string list \<times> error option) \<times> world" where
  "installFiles e pkgPath w =
     (case os_ReadFile (fsys w) pkgPath of
        Inl err \<Rightarrow> (([], Some (OSError err)), w)
      | Inr bytes \<Rightarrow>
          (case tar_stream e bytes of
             None \<Rightarrow> (([], Some GzipError), w)
           | Some (entries, ok) \<Rightarrow>
               (case installFiles_loop entries ok [] (fsys w) of
                  (res, fs') \<Rightarrow> (res, w\<lparr>fsys := fs'\<rparr>))))"

text \<open>\<^verbatim>\<open>removeFiles\<close> walks the list from its last element to its first;
  \<open>removeFiles_step\<close> is the body of the loop.\<close>

definition removeFiles_step :: "string \<Rightarrow> filesystem \<Rightarrow> filesystem" where
  "removeFiles_step path fs =
     (case os_Remove fs path of
        (None, fs1) \<Rightarrow> fs1
      | (Some err, fs1) \<Rightarrow>
          if err \<noteq> ErrNotExist then snd (os_Remove fs1 (filepath_Dir path)) else fs1)"

definition removeFiles :: "string list \<Rightarrow> world \<Rightarrow> error option \<times> world" where
  "removeFiles fls w = (None, w\<lparr>fsys := fold removeFiles_step (rev fls) (fsys w)\<rparr>)"

definition Install :: "env \<Rightarrow> Manager \<Rightarrow> string \<Rightarrow> world \<Rightarrow> error option \<times> world" where
  "Install e m pkgName w =
     (if IsInstalled (db w) pkgName then (Some (AlreadyInstalled pkgName), w)
      else case GetPackage (db w) pkgName of
        None \<Rightarrow> (Some (NotFound pkgName), w)
      | Some info \<Rightarrow>
        let w1 = emit m ''start'' 0 ''Starting installation'' w in
        case downloadPackage e m pkgName (Version info) w1 of
          (Inl err, w2) \<Rightarrow> (Some (DownloadFailed err), w2)
        | (Inr pkgPath, w2) \<Rightarrow>
          let w3 = (if Checksum info \<noteq> '''' then emit m ''verify'' 25 ''Verifying checksum'' w2 else w2) in
          case (if Checksum info \<noteq> '''' then verifyChecksum e pkgPath (Checksum info) w3 else None) of
            Some err \<Rightarrow> (Some (ChecksumFailed err), w3\<lparr>fsys := snd (os_Remove (fsys w3) pkgPath)\<rparr>)
          | None \<Rightarrow>
            let w4 = emit m ''extract'' 50 ''Extracting package'' w3 in
            case extractPackage e pkgPath w4 of
              Inl err \<Rightarrow> (Some (ExtractFailed err), w4)
            | Inr metadata \<Rightarrow>
              case (if PreInstall metadata \<noteq> '''' then runScript e (PreInstall metadata) ''pre-install'' w4
                    else (None, w4)) of
                (Some err, w5) \<Rightarrow> (Some (ScriptFailed ''pre-install'' err), w5)
              | (None, w5) \<Rightarrow>
                let w6 = emit m ''install'' 75 ''Installing files'' w5 in
                case installFiles e pkgPath w6 of
                  ((installedFiles, Some err), w7) \<Rightarrow> (Some (InstallFilesFailed err), w7)
                | ((installedFiles, None), w7) \<Rightarrow>
                  case (if PostInstall metadata \<noteq> '''' then runScript e (PostInstall metadata) ''post-install'' w7
                        else (None, w7)) of
                    (Some err, w8) \<Rightarrow>
                      (Some (ScriptFailed ''post-install'' err), snd (removeFiles installedFiles w8))
                  | (None, w8) \<Rightarrow>
                    let w9 = w8\<lparr>db := RecordInstallation (db w8) pkgName (Version info) installedFiles\<rparr> in
                    (None, emit m ''done'' 100 ''Installation complete'' w9))"

definition Remove :: "env \<Rightarrow> Manager \<Rightarrow> string \<Rightarrow> bool \<Rightarrow> world \<Rightarrow> error option \<times> world" where
  "Remove e m pkgName purge w =
     (if \<not> IsInstalled (db w) pkgName then (Some (NotInstalled pkgName), w)
      else case GetInstalledFiles (db w) pkgName of
        None \<Rightarrow> (Some (GetFilesFailed NoRows), w)
      | Some fls \<Rightarrow>
        let info = GetInstalledPackage (scan_dependencies e) (db w) pkgName;
            w1 = emit m ''start'' 0 ''Starting removal'' w in
        case (case info of
                Some i \<Rightarrow>
                  if PreRemove i \<noteq> ''''
                  then runScript e (PreRemove i) ''pre-remove''
                         (emit m ''pre-remove'' 10 ''Running pre-remove script'' w1)
                  else (None, w1)
              | None \<Rightarrow> (None, w1)) of
          (Some err, w2) \<Rightarrow> (Some (ScriptFailed ''pre-remove'' err), w2)
        | (None, w2) \<Rightarrow>
          let w3 = emit m ''remove-files'' 50 ''Removing files'' w2 in
          case removeFiles fls w3 of
            (Some err, w4) \<Rightarrow> (Some (RemoveFilesFailed err), w4)
          | (None, w4) \<Rightarrow>
            case (case info of
                    Some i \<Rightarrow>
                      if PostRemove i \<noteq> ''''
                      then runScript e (PostRemove i) ''post-remove''
                             (emit m ''post-remove'' 80 ''Running post-remove script'' w4)
                      else (None, w4)
                  | None \<Rightarrow> (None, w4)) of
              (Some err, w5) \<Rightarrow> (Some (ScriptFailed ''post-remove'' err), w5)
            | (None, w5) \<Rightarrow>
              let w6 = w5\<lparr>db := RemoveInstallation (db w5) pkgName\<rparr> in
              (None, emit m ''done'' 100 ''Removal complete'' w6))"

section \<open>Vocabulary of the properties\<close>

subsection \<open>Dependency graphs and orders\<close>

text \<open>
  \<open>dep_edge d b a\<close>: the catalog row of \<open>b\<close> has a specifier whose bare name is \<open>a\<close>.
  \<open>needs d b a\<close>: moreover \<open>a\<close> is not installed, so the resolver follows the edge.
  \<open>before a b xs\<close>: both occur in \<open>xs\<close> and the first \<open>a\<close> is strictly before the
  first \<open>b\<close>.
\<close>

definition dep_edge :: "Database \<Rightarrow> string \<Rightarrow> string \<Rightarrow> bool" where
  "dep_edge d b a =
     (case GetDependencies d b of
        None \<Rightarrow> False
      | Some deps \<Rightarrow> a \<in> set (map parseDependency deps))"

definition needs :: "Database \<Rightarrow> string \<Rightarrow> string \<Rightarrow> bool" where
  "needs d b a = (dep_edge d b a \<and> \<not> IsInstalled d a)"

text \<open>\<open>reachable d pkgs\<close>: the names the resolver has to list for the request \<open>pkgs\<close>,
  which are the requested names that are not installed and every name reached from
  one of them along edges the resolver follows. An installed name is not among
  them, and neither is a name reached only through an installed one.\<close>

definition reachable :: "Database \<Rightarrow> string list \<Rightarrow> string set" where
  "reachable d pkgs = {p. \<exists>q \<in> set pkgs. \<not> IsInstalled d q \<and> rtranclp (needs d) q p}"

text \<open>The dependency graph of a catalog is a DAG when no name reaches itself.\<close>

definition dag :: "Database \<Rightarrow> bool" where
  "dag d = (\<forall>x. \<not> tranclp (dep_edge d) x x)"

fun before :: "'a \<Rightarrow> 'a \<Rightarrow> 'a list \<Rightarrow> bool" where
  "before a b [] = False"
| "before a b (x # xs) =
     (if x = b then False else if x = a then b \<in> set xs else before a b xs)"

text \<open>
  The invariant of a resolution run: the order lists exactly the resolved names that
  are not installed, without repetition, and every name in it comes after all the
  names it needs. \<open>res_post\<close> relates the state before a call to the state after it.
\<close>

definition res_inv :: "Database \<Rightarrow> Resolver \<Rightarrow> bool" where
  "res_inv d r =
     (set (order r) \<subseteq> resolved r
      \<and> resolved r \<subseteq> set (order r) \<union> {p. IsInstalled d p}
      \<and> distinct (order r)
      \<and> (\<forall>p \<in> set (order r). \<not> IsInstalled d p)
      \<and> (\<forall>p \<in> set (order r). \<forall>a. needs d p a \<longrightarrow> before a p (order r)))"

definition res_post :: "Database \<Rightarrow> Resolver \<Rightarrow> Resolver \<Rightarrow> bool" where
  "res_post d r r' =
     (res_inv d r'
      \<and> resolved r \<subseteq> resolved r'
      \<and> (\<exists>ys. order r' = order r @ ys)
      \<and> (\<forall>x \<in> resolved r' - resolved r. IsInstalled d x \<or> x \<notin> unresolved r))"

subsection \<open>Catalogs of the test suite\<close>

definition empty_db :: Database where
  "empty_db = \<lparr>packages = [], installed = [], files = []\<rparr>"

text \<open>A \<^verbatim>\<open>PackageInfo\<close> literal with a name, version 1.0.0 and dependencies, as the
  resolver tests write it.\<close>

definition test_pkg :: "string \<Rightarrow> string list \<Rightarrow> PackageInfo" where
  "test_pkg n deps =
     \<lparr>Name = n, Version = ''1.0.0'', Description = '''', Dependencies = deps, Files = [],
      Checksum = '''', Size = 0, Installed = False, PreRemove = '''', PostRemove = ''''\<rparr>"

text \<open>\<^verbatim>\<open>TestResolverDeepDependencies\<close>: level3 needs level2 needs level1 needs level0.\<close>

definition deep_db :: Database where
  "deep_db =
     AddPackage (AddPackage (AddPackage (AddPackage empty_db
       (test_pkg ''level0'' []))
       (test_pkg ''level1'' [''level0'']))
       (test_pkg ''level2'' [''level1'']))
       (test_pkg ''level3'' [''level2''])"

text \<open>\<^verbatim>\<open>TestResolverCircularDependency\<close>: a needs b and b needs a.\<close>

definition circular_db :: Database where
  "circular_db =
     AddPackage (AddPackage empty_db (test_pkg ''a'' [''b''])) (test_pkg ''b'' [''a''])"

text \<open>\<^verbatim>\<open>TestResolverAlreadyInstalled\<close>: app needs base, and base is installed.\<close>

definition app_db :: Database where
  "app_db =
     RecordInstallation
       (AddPackage (AddPackage empty_db (test_pkg ''base'' [])) (test_pkg ''app'' [''base'']))
       ''base'' ''1.0.0'' []"

text \<open>The circular catalog again, with a installed (by an install without
  dependency resolution).\<close>

definition circular_installed_db :: Database where
  "circular_installed_db = RecordInstallation circular_db ''a'' ''1.0.0'' []"

text \<open>A chain b needs m needs a whose middle package m is installed, a is not.\<close>

definition skip_db :: Database where
  "skip_db =
     RecordInstallation
       (AddPackage (AddPackage (AddPackage empty_db
          (test_pkg ''a'' []))
          (test_pkg ''m'' [''a'']))
          (test_pkg ''b'' [''m'']))
       ''m'' ''1.0.0'' []"

text \<open>base and app installed, app depending on base through the specifier \<open>spec\<close>.\<close>

definition revdep_db :: "string \<Rightarrow> Database" where
  "revdep_db spec =
     RecordInstallation
       (RecordInstallation
          (AddPackage (AddPackage empty_db (test_pkg ''base'' [])) (test_pkg ''app'' [spec]))
          ''base'' ''1.0.0'' [])
       ''app'' ''1.0.0'' []"

subsection \<open>The cache\<close>

text \<open>\<open>cache_path\<close> is where \<^verbatim>\<open>downloadPackage\<close> keeps the archive of a package version.\<close>

definition cache_path :: "Manager \<Rightarrow> string \<Rightarrow> string \<Rightarrow> string" where
  "cache_path m name version = filepath_Join (cacheDir m) (name @ ''-'' @ version @ ''.mixpkg'')"

subsection \<open>Entries of an archive\<close>

text \<open>
  An entry is \<open>skipped\<close> by \<^verbatim>\<open>installFiles\<close> when it is named \<open>metadata.json\<close>, lies under
  \<open>scripts/\<close>, or has an empty or \<open>.\<close> name once the prefix is stripped; it is \<open>listed\<close>
  when it is not skipped and is a regular file or a symbolic link; \<open>target_of\<close> is
  where it is written.
\<close>

definition skipped :: "tar_entry \<Rightarrow> bool" where
  "skipped h =
     (entry_Name h = ''metadata.json'' \<or> strings_HasPrefix (entry_Name h) ''scripts/''
      \<or> strip_files_prefix (entry_Name h) = '''' \<or> strip_files_prefix (entry_Name h) = ''.'')"

definition listed :: "tar_entry \<Rightarrow> bool" where
  "listed h = (\<not> skipped h \<and> (Typeflag h = TypeReg \<or> Typeflag h = TypeSymlink))"

definition target_of :: "tar_entry \<Rightarrow> string" where
  "target_of h = ''/'' @ strip_files_prefix (entry_Name h)"

subsection \<open>Archives, environment and worlds of the engine scenarios\<close>

text \<open>
  Three archives, named by their bytes: \<open>SVC\<close> holds a package whose metadata declares
  a pre-remove script, \<open>HOOK\<close> one whose post-install script fails, \<open>DOT\<close> is \<open>SVC\<close> with
  every entry name prefixed by \<open>./\<close>, as \<^verbatim>\<open>tar -C dir -czf pkg .\<close> writes it. Each has the
  metadata document, the directories \<open>files/\<close> and \<open>files/usr/\<close> and the file
  \<open>files/usr/app\<close>. In \<open>test_env\<close> the network is down, the shell fails on the script
  \<open>exit 1\<close> and on no other, and scanning the dependencies column into a \<^verbatim>\<open>[]string\<close>
  fails, as it does in \<^verbatim>\<open>database/sql\<close>.
  \<open>test_world n bytes chk\<close> has the archive \<open>bytes\<close> of package \<open>n\<close>, version 1.0, in the
  cache and the catalog row of \<open>n\<close> with checksum \<open>chk\<close>.
\<close>

definition test_metadata :: "string \<Rightarrow> string \<Rightarrow> string \<Rightarrow> PackageMetadata" where
  "test_metadata n post pre_rm =
     \<lparr>md_Name = n, md_Version = ''1.0'', md_Description = '''', md_Dependencies = [],
      md_Files = [], md_Checksum = '''', PreInstall = '''', PostInstall = post,
      md_PreRemove = pre_rm, md_PostRemove = ''''\<rparr>"

definition test_entry :: "string \<Rightarrow> typeflag \<Rightarrow> string \<Rightarrow> tar_entry" where
  "test_entry n t b = \<lparr>entry_Name = n, Typeflag = t, Linkname = '''', Body = b, BodyOK = True\<rparr>"

definition test_archive :: "string \<Rightarrow> string \<Rightarrow> tar_entry list" where
  "test_archive pre doc =
     [test_entry (pre @ ''metadata.json'') TypeReg doc,
      test_entry (pre @ ''files/'') TypeDir '''',
      test_entry (pre @ ''files/usr/'') TypeDir '''',
      test_entry (pre @ ''files/usr/app'') TypeReg ''run'']"

definition test_env :: env where
  "test_env =
     \<lparr>http_Get = (\<lambda>url. HttpError),
      sha256_hex = (\<lambda>bytes. if bytes = ''SVC'' then ''5e'' else ''00''),
      tar_stream =
        (\<lambda>bytes. if bytes = ''SVC'' then Some (test_archive '''' ''{svc}'', True)
                 else if bytes = ''HOOK'' then Some (test_archive '''' ''{hook}'', True)
                 else if bytes = ''DOT'' then Some (test_archive ''./'' ''{svc}'', True)
                 else None),
      json_Decode =
        (\<lambda>doc. if doc = ''{svc}'' then Some (test_metadata ''svc'' '''' ''exit 1'')
               else if doc = ''{hook}'' then Some (test_metadata ''hook'' ''exit 1'' '''')
               else None),
      sh = (\<lambda>script f. (script \<noteq> ''exit 1'', f)),
      scan_dependencies = (\<lambda>deps. None)\<rparr>"

definition test_manager :: Manager where
  "test_manager = \<lparr>repoURL = ''http://repo'', cacheDir = ''/cache'', progressChan = True\<rparr>"

definition test_world :: "string \<Rightarrow> string \<Rightarrow> string \<Rightarrow> world" where
  "test_world n bytes chk =
     \<lparr>fsys = \<lparr>nodes = [([''cache'', n @ ''-1.0.mixpkg''], Reg bytes), ([''cache''], Dir)],
              readonly = (\<lambda>k. False)\<rparr>,
      db = AddPackage empty_db
             \<lparr>Name = n, Version = ''1.0'', Description = '''', Dependencies = [], Files = [],
              Checksum = chk, Size = 0, Installed = False, PreRemove = '''', PostRemove = ''''\<rparr>,
      events = [], scripts = []\<rparr>"

text \<open>The world after svc is installed from the archive \<open>SVC\<close>, and the same world
  with the installed file made read-only.\<close>

definition installed_svc :: world where
  "installed_svc = snd (Install test_env test_manager ''svc'' (test_world ''svc'' ''SVC'' ''''))"

definition locked_svc :: world where
  "locked_svc =
     installed_svc\<lparr>fsys := (fsys installed_svc)\<lparr>readonly := (\<lambda>k. k = [''usr'', ''app''])\<rparr>\<rparr>"

text \<open>The world in which hook is about to be installed from the archive \<open>HOOK\<close>, on a
  system where \<open>/usr/app\<close> is a symbolic link to \<open>/data\<close>, which does not exist yet.\<close>

definition linked_hook :: world where
  "linked_hook =
     (test_world ''hook'' ''HOOK'' '''')
       \<lparr>fsys := fs_put (fs_put (fsys (test_world ''hook'' ''HOOK'' '''')) [''usr''] Dir)
                  [''usr'', ''app''] (Symlink ''/data'')\<rparr>"

section \<open>The resolver orders dependencies first\<close>

subsection \<open>Positions in a list\<close>

lemma before_mem: "before a b xs \<Longrightarrow> a \<in> set xs \<and> b \<in> set xs \<and> a \<noteq> b"
  by (induction xs) (auto split: if_splits)

lemma before_append: "before a b xs \<Longrightarrow> before a b (xs @ ys)"
  by (induction xs) (auto split: if_splits)

lemma before_snoc: "a \<in> set xs \<Longrightarrow> b \<notin> set xs \<Longrightarrow> before a b (xs @ [b])"
  by (induction xs) auto

lemma before_trans:
  "distinct xs \<Longrightarrow> before a b xs \<Longrightarrow> before b c xs \<Longrightarrow> before a c xs"
proof (induction xs)
  case Nil
  then show ?case by simp
next
  case (Cons x xs)
  then show ?case
    by (auto split: if_splits dest: before_mem)
qed


subsection \<open>A successful resolve restores the stack and keeps the invariant\<close>

lemma resolve_unresolved:
  "resolve n d pkg r = Some (Inr r') \<Longrightarrow> unresolved r' = unresolved r"
  "resolve_deps n d deps r = Some (Inr r') \<Longrightarrow> unresolved r' = unresolved r"
proof (induction n d pkg r and n d deps r arbitrary: r' and r' rule: resolve_resolve_deps.induct)
  case (1 d pkg r)
  then show ?case by simp
next
  case (2 n d pkg r)
  let ?r1 = "r\<lparr>unresolved := insert pkg (unresolved r)\<rparr>"
  from "2.prems" have nu: "pkg \<notin> unresolved r" by (simp split: if_splits)
  show ?case
  proof (cases "pkg \<in> resolved r")
    case True
    with "2.prems" nu show ?thesis by simp
  next
    case nr: False
    show ?thesis
    proof (cases "GetDependencies d pkg")
      case None
      with "2.prems" nu nr have "r' = mark_resolved pkg ?r1" by (simp add: Let_def)
      with nu show ?thesis by (simp add: mark_resolved_def)
    next
      case (Some deps)
      with "2.prems" nu nr obtain r2 where
        r2: "resolve_deps n d deps ?r1 = Some (Inr r2)" and r': "r' = mark_resolved pkg r2"
        by (auto simp: Let_def split: option.splits sum.splits)
      from "2.IH"[OF nu nr refl Some r2] have "unresolved r2 = insert pkg (unresolved r)"
        by simp
      with r' nu show ?thesis by (simp add: mark_resolved_def)
    qed
  qed
next
  case (3 n d r)
  then show ?case by simp
next
  case (4 n d dep deps r)
  show ?case
  proof (cases "IsInstalled d (parseDependency dep)")
    case True
    with "4.prems" have
      "resolve_deps n d deps (r\<lparr>resolved := insert (parseDependency dep) (resolved r)\<rparr>) = Some (Inr r')"
      by (simp add: Let_def)
    from "4.IH"(1)[OF refl True this] show ?thesis by simp
  next
    case False
    with "4.prems" obtain r1 where
      r1: "resolve n d (parseDependency dep) r = Some (Inr r1)"
      and rest: "resolve_deps n d deps r1 = Some (Inr r')"
      by (auto simp: Let_def split: option.splits sum.splits)
    from "4.IH"(2)[OF refl False r1] "4.IH"(3)[OF refl False r1 refl rest]
    show ?thesis by simp
  qed
qed


lemma res_post_refl: "res_inv d r \<Longrightarrow> res_post d r r"
  by (simp add: res_post_def)

lemma res_post_trans:
  assumes "res_post d r r1" and "res_post d r1 r2" and "unresolved r1 = unresolved r"
  shows "res_post d r r2"
proof -
  from assms obtain ys zs where "order r1 = order r @ ys" "order r2 = order r1 @ zs"
    by (auto simp: res_post_def)
  then have "order r2 = order r @ (ys @ zs)" by simp
  then have ex: "\<exists>ws. order r2 = order r @ ws" ..
  from assms have "\<forall>x \<in> resolved r2 - resolved r. IsInstalled d x \<or> x \<notin> unresolved r"
    unfolding res_post_def by blast
  with assms ex show ?thesis unfolding res_post_def by blast
qed

lemma res_inv_unresolved_update [simp]:
  "res_inv d (r\<lparr>unresolved := U\<rparr>) = res_inv d r"
  by (simp add: res_inv_def)

lemma res_inv_mark_installed:
  "res_inv d r \<Longrightarrow> IsInstalled d x \<Longrightarrow> res_inv d (r\<lparr>resolved := insert x (resolved r)\<rparr>)"
  unfolding res_inv_def by auto

lemma needs_deps:
  "needs d pkg a \<Longrightarrow> GetDependencies d pkg = Some deps \<Longrightarrow> \<exists>dep \<in> set deps. a = parseDependency dep"
  by (auto simp: needs_def dep_edge_def)

lemma needs_catalog: "needs d pkg a \<Longrightarrow> GetDependencies d pkg \<noteq> None"
  by (auto simp: needs_def dep_edge_def split: option.splits)

lemma mark_resolved_inv:
  assumes inv: "res_inv d r2" and nr: "pkg \<notin> resolved r2" and ni: "\<not> IsInstalled d pkg"
    and deps: "\<forall>a. needs d pkg a \<longrightarrow> a \<in> resolved r2"
  shows "res_inv d (mark_resolved pkg r2)"
proof -
  from inv nr have notin: "pkg \<notin> set (order r2)" by (auto simp: res_inv_def)
  have edges: "\<forall>p \<in> set (order r2 @ [pkg]). \<forall>a. needs d p a \<longrightarrow> before a p (order r2 @ [pkg])"
  proof (intro ballI allI impI)
    fix p a assume p: "p \<in> set (order r2 @ [pkg])" and n: "needs d p a"
    show "before a p (order r2 @ [pkg])"
    proof (cases "p = pkg")
      case True
      with n deps have "a \<in> resolved r2" by blast
      moreover from n have "\<not> IsInstalled d a" by (simp add: needs_def)
      ultimately have "a \<in> set (order r2)" using inv by (auto simp: res_inv_def)
      with notin True show ?thesis by (simp add: before_snoc)
    next
      case False
      with p have "p \<in> set (order r2)" by simp
      with inv n have "before a p (order r2)" by (simp add: res_inv_def)
      then show ?thesis by (rule before_append)
    qed
  qed
  from inv notin ni edges show ?thesis
    unfolding res_inv_def mark_resolved_def by auto
qed


lemma resolve_inv:
  "resolve n d pkg r = Some (Inr r') \<Longrightarrow> res_inv d r \<Longrightarrow> \<not> IsInstalled d pkg
     \<Longrightarrow> res_post d r r' \<and> pkg \<in> resolved r'"
  "resolve_deps n d deps r = Some (Inr r') \<Longrightarrow> res_inv d r
     \<Longrightarrow> res_post d r r' \<and> (\<forall>dep \<in> set deps. parseDependency dep \<in> resolved r')"
proof (induction n d pkg r and n d deps r arbitrary: r' and r' rule: resolve_resolve_deps.induct)
  case (1 d pkg r)
  then show ?case by simp
next
  case (2 n d pkg r)
  let ?r1 = "r\<lparr>unresolved := insert pkg (unresolved r)\<rparr>"
  note inv = \<open>res_inv d r\<close> and ni = \<open>\<not> IsInstalled d pkg\<close>
  from "2.prems"(1) have nu: "pkg \<notin> unresolved r" by (simp split: if_splits)
  show ?case
  proof (cases "pkg \<in> resolved r")
    case True
    with "2.prems"(1) nu have "r' = r" by simp
    with True inv show ?thesis by (simp add: res_post_refl)
  next
    case nr: False
    have step: "res_post d r (mark_resolved pkg r2) \<and> pkg \<in> resolved (mark_resolved pkg r2)"
      if post: "res_post d ?r1 r2" and deps: "\<forall>a. needs d pkg a \<longrightarrow> a \<in> resolved r2" for r2
    proof -
      from post have inv2: "res_inv d r2" and sub: "resolved r \<subseteq> resolved r2"
        and new: "\<forall>x \<in> resolved r2 - resolved r. IsInstalled d x \<or> x \<notin> insert pkg (unresolved r)"
        by (auto simp: res_post_def)
      from new nr ni have nr2: "pkg \<notin> resolved r2" by blast
      from mark_resolved_inv[OF inv2 nr2 ni deps] have inv3: "res_inv d (mark_resolved pkg r2)" .
      from post obtain ys where "order r2 = order r @ ys" by (auto simp: res_post_def)
      then have "order (mark_resolved pkg r2) = order r @ (ys @ [pkg])"
        by (simp add: mark_resolved_def)
      then have ex: "\<exists>zs. order (mark_resolved pkg r2) = order r @ zs" ..
      have res3: "resolved (mark_resolved pkg r2) = insert pkg (resolved r2)"
        by (simp add: mark_resolved_def)
      from new nu have "\<forall>x \<in> insert pkg (resolved r2) - resolved r. IsInstalled d x \<or> x \<notin> unresolved r"
        by blast
      with inv3 sub ex res3 show ?thesis unfolding res_post_def by auto
    qed
    have inv1: "res_inv d ?r1" using inv by simp
    show ?thesis
    proof (cases "GetDependencies d pkg")
      case None
      with "2.prems"(1) nu nr have r': "r' = mark_resolved pkg ?r1" by (simp add: Let_def)
      from None have "\<forall>a. needs d pkg a \<longrightarrow> a \<in> resolved ?r1"
        by (auto dest: needs_catalog)
      from step[OF res_post_refl[OF inv1] this] r' show ?thesis by simp
    next
      case (Some deps)
      with "2.prems"(1) nu nr obtain r2 where
        r2: "resolve_deps n d deps ?r1 = Some (Inr r2)" and r': "r' = mark_resolved pkg r2"
        by (auto simp: Let_def split: option.splits sum.splits)
      from "2.IH"[OF nu nr refl Some r2 inv1]
      have post: "res_post d ?r1 r2" and all: "\<forall>dep \<in> set deps. parseDependency dep \<in> resolved r2"
        by simp_all
      from all Some have "\<forall>a. needs d pkg a \<longrightarrow> a \<in> resolved r2"
        by (auto dest: needs_deps)
      from step[OF post this] r' show ?thesis by simp
    qed
  qed
next
  case (3 n d r)
  then show ?case by (simp add: res_post_refl)
next
  case (4 n d dep deps r)
  note inv = \<open>res_inv d r\<close>
  let ?x = "parseDependency dep"
  show ?case
  proof (cases "IsInstalled d ?x")
    case True
    let ?r1 = "r\<lparr>resolved := insert ?x (resolved r)\<rparr>"
    from True "4.prems"(1) have rest: "resolve_deps n d deps ?r1 = Some (Inr r')"
      by (simp add: Let_def)
    from inv True have inv1: "res_inv d ?r1" by (rule res_inv_mark_installed)
    from "4.IH"(1)[OF refl True rest inv1]
    have post: "res_post d ?r1 r'" and all: "\<forall>dep \<in> set deps. parseDependency dep \<in> resolved r'"
      by simp_all
    from post True have "res_post d r r'" unfolding res_post_def by auto
    moreover from post have "?x \<in> resolved r'" unfolding res_post_def by auto
    ultimately show ?thesis using all by simp
  next
    case False
    with "4.prems"(1) obtain r1 where
      r1: "resolve n d ?x r = Some (Inr r1)"
      and rest: "resolve_deps n d deps r1 = Some (Inr r')"
      by (auto simp: Let_def split: option.splits sum.splits)
    from "4.IH"(2)[OF refl False r1 inv False]
    have post1: "res_post d r r1" and x: "?x \<in> resolved r1" by simp_all
    then have inv1: "res_inv d r1" by (simp add: res_post_def)
    from "4.IH"(3)[OF refl False r1 refl rest inv1]
    have post2: "res_post d r1 r'" and all: "\<forall>dep \<in> set deps. parseDependency dep \<in> resolved r'"
      by simp_all
    from resolve_unresolved(1)[OF r1] have "unresolved r1 = unresolved r" .
    from res_post_trans[OF post1 post2 this] have "res_post d r r'" .
    moreover from post2 x have "?x \<in> resolved r'" unfolding res_post_def by auto
    ultimately show ?thesis using all by simp
  qed
qed


subsection \<open>The only error is the circular dependency; the depth bound is never reached\<close>

lemma resolve_error:
  "resolve n d pkg r = Some (Inl e) \<Longrightarrow> \<exists>p. e = CircularDependency p"
  "resolve_deps n d deps r = Some (Inl e) \<Longrightarrow> \<exists>p. e = CircularDependency p"
proof (induction n d pkg r and n d deps r rule: resolve_resolve_deps.induct)
  case (1 d pkg r)
  then show ?case by simp
next
  case (2 n d pkg r)
  show ?case
  proof (cases "pkg \<in> unresolved r")
    case True
    with "2.prems" show ?thesis by auto
  next
    case nu: False
    show ?thesis
    proof (cases "pkg \<in> resolved r")
      case True
      with "2.prems" nu show ?thesis by simp
    next
      case nr: False
      show ?thesis
      proof (cases "GetDependencies d pkg")
        case None
        with "2.prems" nu nr show ?thesis by (simp add: Let_def)
      next
        case (Some deps)
        with "2.prems" nu nr
        have "resolve_deps n d deps (r\<lparr>unresolved := insert pkg (unresolved r)\<rparr>) = Some (Inl e)"
          by (auto simp: Let_def split: option.splits sum.splits)
        from "2.IH"[OF nu nr refl Some this] show ?thesis .
      qed
    qed
  qed
next
  case (3 n d r)
  then show ?case by simp
next
  case (4 n d dep deps r)
  show ?case
  proof (cases "IsInstalled d (parseDependency dep)")
    case True
    with "4.prems" have
      "resolve_deps n d deps (r\<lparr>resolved := insert (parseDependency dep) (resolved r)\<rparr>) = Some (Inl e)"
      by (simp add: Let_def)
    from "4.IH"(1)[OF refl True this] show ?thesis .
  next
    case False
    show ?thesis
    proof (cases "resolve n d (parseDependency dep) r")
      case None
      with "4.prems" False show ?thesis by (simp add: Let_def)
    next
      case (Some res)
      show ?thesis
      proof (cases res)
        case (Inl e')
        with Some "4.prems" False have "e' = e" by (simp add: Let_def)
        with Some Inl "4.IH"(2)[OF refl False] show ?thesis by simp
      next
        case (Inr r1)
        with Some "4.prems" False have "resolve_deps n d deps r1 = Some (Inl e)"
          by (simp add: Let_def)
        from "4.IH"(3)[OF refl False Some Inr this] show ?thesis .
      qed
    qed
  qed
qed

lemma resolve_fuel:
  "card (fst ` set (packages d) - unresolved r) < n \<Longrightarrow> resolve n d pkg r \<noteq> None"
  "card (fst ` set (packages d) - unresolved r) < n \<Longrightarrow> resolve_deps n d deps r \<noteq> None"
proof (induction n d pkg r and n d deps r rule: resolve_resolve_deps.induct)
  case (1 d pkg r)
  then show ?case by simp
next
  case (2 n d pkg r)
  let ?C = "fst ` set (packages d)"
  let ?r1 = "r\<lparr>unresolved := insert pkg (unresolved r)\<rparr>"
  show ?case
  proof (cases "pkg \<in> unresolved r \<or> pkg \<in> resolved r")
    case True
    then show ?thesis by auto
  next
    case False
    then have nu: "pkg \<notin> unresolved r" and nr: "pkg \<notin> resolved r" by simp_all
    show ?thesis
    proof (cases "GetDependencies d pkg")
      case None
      with nu nr show ?thesis by (simp add: Let_def)
    next
      case (Some deps)
      then have "pkg \<in> ?C"
        by (auto simp: GetDependencies_def dest: map_of_SomeD intro: rev_image_eqI)
      with nu have "?C - insert pkg (unresolved r) \<subset> ?C - unresolved r" by auto
      then have "card (?C - insert pkg (unresolved r)) < card (?C - unresolved r)"
        by (intro psubset_card_mono) simp_all
      with "2.prems" have "card (?C - unresolved ?r1) < n" by simp
      from "2.IH"[OF nu nr refl Some this] Some nu nr show ?thesis
        by (auto simp: Let_def split: option.splits sum.splits)
    qed
  qed
next
  case (3 n d r)
  then show ?case by simp
next
  case (4 n d dep deps r)
  show ?case
  proof (cases "IsInstalled d (parseDependency dep)")
    case True
    from "4.IH"(1)[OF refl True] "4.prems" True show ?thesis by (simp add: Let_def)
  next
    case False
    from "4.IH"(2)[OF refl False "4.prems"] obtain res where
      res: "resolve n d (parseDependency dep) r = Some res" by auto
    show ?thesis
    proof (cases res)
      case (Inl e)
      with res False show ?thesis by (simp add: Let_def)
    next
      case (Inr r1)
      from resolve_unresolved(1)[OF res[unfolded Inr]] "4.prems"
      have "card (fst ` set (packages d) - unresolved r1) < n" by simp
      from "4.IH"(3)[OF refl False res Inr this] res Inr False show ?thesis
        by (simp add: Let_def)
    qed
  qed
qed

subsection \<open>The loops of Resolve\<close>

lemma mark_installed_fields:
  "resolved (mark_installed d pkgs r) = resolved r \<union> {p \<in> set pkgs. IsInstalled d p}"
  "unresolved (mark_installed d pkgs r) = unresolved r"
  "order (mark_installed d pkgs r) = order r"
  by (induction pkgs arbitrary: r) auto

lemma resolve_each_inv:
  "resolve_each n d pkgs r = Some (Inr r') \<Longrightarrow> res_inv d r
     \<Longrightarrow> \<forall>p \<in> set pkgs. IsInstalled d p \<longrightarrow> p \<in> resolved r
     \<Longrightarrow> res_post d r r' \<and> set pkgs \<subseteq> resolved r' \<and> unresolved r' = unresolved r"
proof (induction pkgs arbitrary: r)
  case Nil
  then show ?case by (simp add: res_post_refl)
next
  case (Cons pkg pkgs)
  note inv = \<open>res_inv d r\<close>
  show ?case
  proof (cases "pkg \<in> resolved r")
    case True
    with Cons.prems(1) have "resolve_each n d pkgs r = Some (Inr r')" by simp
    from Cons.IH[OF this inv] Cons.prems(3)
    have post: "res_post d r r'" and rest: "set pkgs \<subseteq> resolved r'" "unresolved r' = unresolved r"
      by simp_all
    from post True have "pkg \<in> resolved r'" by (auto simp: res_post_def)
    with post rest show ?thesis by simp
  next
    case False
    with Cons.prems(3) have ni: "\<not> IsInstalled d pkg" by auto
    from False Cons.prems(1) obtain r1 where
      r1: "resolve n d pkg r = Some (Inr r1)" and rest: "resolve_each n d pkgs r1 = Some (Inr r')"
      by (auto split: option.splits sum.splits)
    from resolve_inv(1)[OF r1 inv ni] have post1: "res_post d r r1" and in1: "pkg \<in> resolved r1"
      by simp_all
    then have inv1: "res_inv d r1" and sub: "resolved r \<subseteq> resolved r1"
      by (simp_all add: res_post_def)
    from Cons.prems(3) sub have "\<forall>p \<in> set pkgs. IsInstalled d p \<longrightarrow> p \<in> resolved r1" by auto
    from Cons.IH[OF rest inv1 this]
    have post2: "res_post d r1 r'" and all: "set pkgs \<subseteq> resolved r'"
      and u2: "unresolved r' = unresolved r1" by simp_all
    from resolve_unresolved(1)[OF r1] have u1: "unresolved r1 = unresolved r" .
    from res_post_trans[OF post1 post2 u1] have "res_post d r r'" .
    moreover from post2 in1 have "pkg \<in> resolved r'" by (auto simp: res_post_def)
    ultimately show ?thesis using all u1 u2 by simp
  qed
qed

lemma resolve_each_fuel:
  "card (fst ` set (packages d) - unresolved r) < n \<Longrightarrow> resolve_each n d pkgs r \<noteq> None"
proof (induction pkgs arbitrary: r)
  case Nil
  then show ?case by simp
next
  case (Cons pkg pkgs)
  show ?case
  proof (cases "pkg \<in> resolved r")
    case True
    with Cons show ?thesis by simp
  next
    case False
    from resolve_fuel(1)[OF Cons.prems] obtain res where
      res: "resolve n d pkg r = Some res" by auto
    show ?thesis
    proof (cases res)
      case (Inl e)
      with res False show ?thesis by simp
    next
      case (Inr r1)
      from resolve_unresolved(1)[OF res[unfolded Inr]] Cons.prems
      have "card (fst ` set (packages d) - unresolved r1) < n" by simp
      from Cons.IH[OF this] res Inr False show ?thesis by simp
    qed
  qed
qed

lemma resolve_each_error:
  "resolve_each n d pkgs r = Some (Inl e) \<Longrightarrow> \<exists>p. e = CircularDependency p"
proof (induction pkgs arbitrary: r)
  case Nil
  then show ?case by simp
next
  case (Cons pkg pkgs)
  then show ?case
    by (auto split: if_splits option.splits sum.splits dest: resolve_error(1))
qed

lemma Resolve_returns: "Resolve d pkgs \<noteq> None"
proof -
  let ?r0 = "mark_installed d pkgs \<lparr>resolved = {}, unresolved = {}, order = []\<rparr>"
  have "card (fst ` set (packages d)) \<le> length (packages d)"
    by (metis card_image_le card_length le_trans List.finite_set)
  then have "card (fst ` set (packages d) - unresolved ?r0) < Suc (length (packages d))"
    by (simp add: mark_installed_fields)
  from resolve_each_fuel[OF this, of pkgs] show ?thesis
    by (auto simp: Resolve_def Resolve_bounded_def Let_def split: option.splits sum.splits)
qed

lemma Resolve_error: "Resolve d pkgs = Some (Inl e) \<Longrightarrow> \<exists>p. e = CircularDependency p"
  by (auto simp: Resolve_def Resolve_bounded_def Let_def split: option.splits sum.splits
      dest: resolve_each_error)

lemma Resolve_success:
  assumes "Resolve d pkgs = Some (Inr out)"
  shows "distinct out"
    and "\<forall>p \<in> set out. \<not> IsInstalled d p"
    and "\<forall>p \<in> set out. \<forall>a. needs d p a \<longrightarrow> before a p out"
    and "\<forall>p \<in> set pkgs. \<not> IsInstalled d p \<longrightarrow> p \<in> set out"
proof -
  let ?r0 = "mark_installed d pkgs \<lparr>resolved = {}, unresolved = {}, order = []\<rparr>"
  from assms obtain r where
    r: "resolve_each (Suc (length (packages d))) d pkgs ?r0 = Some (Inr r)"
    and out: "out = filter (\<lambda>pkg. \<not> IsInstalled d pkg) (order r)"
    by (auto simp: Resolve_def Resolve_bounded_def Let_def split: option.splits sum.splits)
  have inv0: "res_inv d ?r0" by (auto simp: res_inv_def mark_installed_fields)
  have "\<forall>p \<in> set pkgs. IsInstalled d p \<longrightarrow> p \<in> resolved ?r0"
    by (simp add: mark_installed_fields)
  from resolve_each_inv[OF r inv0 this]
  have post: "res_post d ?r0 r" and all: "set pkgs \<subseteq> resolved r" by simp_all
  then have inv: "res_inv d r" by (simp add: res_post_def)
  then have "filter (\<lambda>pkg. \<not> IsInstalled d pkg) (order r) = order r"
    by (auto simp: res_inv_def)
  with out have out': "out = order r" by simp
  from inv out' show "distinct out" by (simp add: res_inv_def)
  from inv out' show "\<forall>p \<in> set out. \<not> IsInstalled d p" by (simp add: res_inv_def)
  from inv out' show "\<forall>p \<in> set out. \<forall>a. needs d p a \<longrightarrow> before a p out"
    by (simp add: res_inv_def)
  from inv all out' show "\<forall>p \<in> set pkgs. \<not> IsInstalled d p \<longrightarrow> p \<in> set out"
    by (auto simp: res_inv_def)
qed

lemma Resolve_before_trans:
  assumes res: "Resolve d pkgs = Some (Inr out)"
  shows "tranclp (needs d) b a \<Longrightarrow> b \<in> set out \<Longrightarrow> before a b out"
proof (induction rule: tranclp_induct)
  case (base y)
  with Resolve_success(3)[OF res] show ?case by blast
next
  case (step y z)
  from step.IH[OF step.prems] have by': "before y b out" .
  then have "y \<in> set out" by (simp add: before_mem)
  with Resolve_success(3)[OF res] step.hyps(2) have "before z y out" by blast
  from before_trans[OF Resolve_success(1)[OF res] this by'] show ?case .
qed

subsection \<open>What a successful resolution lists\<close>

text \<open>The resolver never leaves a set of names that holds the requested names that
  are not installed and is closed under the edges it follows; so the result of
  \<^verbatim>\<open>Resolve\<close> is exactly the set of reachable names.\<close>

lemma resolve_within:
  "resolve n d pkg r = Some (Inr r') \<Longrightarrow> pkg \<in> S \<Longrightarrow> set (order r) \<subseteq> S
     \<Longrightarrow> \<forall>p a. p \<in> S \<longrightarrow> needs d p a \<longrightarrow> a \<in> S
     \<Longrightarrow> set (order r') \<subseteq> S"
  "resolve_deps n d deps r = Some (Inr r') \<Longrightarrow>
     \<forall>dep \<in> set deps. \<not> IsInstalled d (parseDependency dep) \<longrightarrow> parseDependency dep \<in> S
     \<Longrightarrow> set (order r) \<subseteq> S
     \<Longrightarrow> \<forall>p a. p \<in> S \<longrightarrow> needs d p a \<longrightarrow> a \<in> S
     \<Longrightarrow> set (order r') \<subseteq> S"
proof (induction n d pkg r and n d deps r arbitrary: r' and r' rule: resolve_resolve_deps.induct)
  case (1 d pkg r)
  then show ?case by simp
next
  case (2 n d pkg r)
  let ?r1 = "r\<lparr>unresolved := insert pkg (unresolved r)\<rparr>"
  note closed = "2.prems"(4)
  from "2.prems"(1) have nu: "pkg \<notin> unresolved r" by (simp split: if_splits)
  show ?case
  proof (cases "pkg \<in> resolved r")
    case True
    with "2.prems"(1) nu have "r' = r" by simp
    with "2.prems"(3) show ?thesis by simp
  next
    case nr: False
    show ?thesis
    proof (cases "GetDependencies d pkg")
      case None
      with "2.prems"(1) nu nr have "r' = mark_resolved pkg ?r1" by (simp add: Let_def)
      with "2.prems"(2,3) show ?thesis by (simp add: mark_resolved_def)
    next
      case (Some deps)
      with "2.prems"(1) nu nr obtain r2 where
        r2: "resolve_deps n d deps ?r1 = Some (Inr r2)" and r': "r' = mark_resolved pkg r2"
        by (auto simp: Let_def split: option.splits sum.splits)
      have "\<forall>dep \<in> set deps. \<not> IsInstalled d (parseDependency dep) \<longrightarrow> parseDependency dep \<in> S"
      proof (intro ballI impI)
        fix dep assume "dep \<in> set deps" and "\<not> IsInstalled d (parseDependency dep)"
        with Some have "needs d pkg (parseDependency dep)"
          by (simp add: needs_def dep_edge_def)
        with "2.prems"(2) closed show "parseDependency dep \<in> S" by blast
      qed
      moreover from "2.prems"(3) have "set (order ?r1) \<subseteq> S" by simp
      ultimately have "set (order r2) \<subseteq> S" using "2.IH"[OF nu nr refl Some r2] closed by blast
      with r' "2.prems"(2) show ?thesis by (simp add: mark_resolved_def)
    qed
  qed
next
  case (3 n d r)
  then show ?case by simp
next
  case (4 n d dep deps r)
  let ?x = "parseDependency dep"
  from "4.prems"(2) have rest_in:
    "\<forall>dep \<in> set deps. \<not> IsInstalled d (parseDependency dep) \<longrightarrow> parseDependency dep \<in> S"
    by simp
  show ?case
  proof (cases "IsInstalled d ?x")
    case True
    let ?r1 = "r\<lparr>resolved := insert ?x (resolved r)\<rparr>"
    from True "4.prems"(1) have rest: "resolve_deps n d deps ?r1 = Some (Inr r')"
      by (simp add: Let_def)
    from "4.prems"(3) have "set (order ?r1) \<subseteq> S" by simp
    from "4.IH"(1)[OF refl True rest rest_in this "4.prems"(4)] show ?thesis .
  next
    case False
    with "4.prems"(1) obtain r1 where
      r1: "resolve n d ?x r = Some (Inr r1)"
      and rest: "resolve_deps n d deps r1 = Some (Inr r')"
      by (auto simp: Let_def split: option.splits sum.splits)
    from False "4.prems"(2) have "?x \<in> S" by simp
    from "4.IH"(2)[OF refl False r1 this "4.prems"(3,4)] have "set (order r1) \<subseteq> S" .
    from "4.IH"(3)[OF refl False r1 refl rest rest_in this "4.prems"(4)] show ?thesis .
  qed
qed

lemma reachable_closed: "\<forall>p a. p \<in> reachable d pkgs \<longrightarrow> needs d p a \<longrightarrow> a \<in> reachable d pkgs"
  unfolding reachable_def by (blast intro: rtranclp.rtrancl_into_rtrancl)

lemma resolve_each_within:
  "resolve_each n d pkgs r = Some (Inr r') \<Longrightarrow> res_inv d r
     \<Longrightarrow> \<forall>p \<in> set pkgs. IsInstalled d p \<longrightarrow> p \<in> resolved r
     \<Longrightarrow> \<forall>p \<in> set pkgs. \<not> IsInstalled d p \<longrightarrow> p \<in> S
     \<Longrightarrow> set (order r) \<subseteq> S
     \<Longrightarrow> \<forall>p a. p \<in> S \<longrightarrow> needs d p a \<longrightarrow> a \<in> S
     \<Longrightarrow> set (order r') \<subseteq> S"
proof (induction pkgs arbitrary: r)
  case Nil
  then show ?case by simp
next
  case (Cons pkg pkgs)
  from Cons.prems(4) have rest_S: "\<forall>p \<in> set pkgs. \<not> IsInstalled d p \<longrightarrow> p \<in> S" by simp
  show ?case
  proof (cases "pkg \<in> resolved r")
    case True
    with Cons.prems(1) have "resolve_each n d pkgs r = Some (Inr r')" by simp
    from Cons.IH[OF this Cons.prems(2) _ rest_S Cons.prems(5,6)] Cons.prems(3)
    show ?thesis by simp
  next
    case False
    with Cons.prems(3) have ni: "\<not> IsInstalled d pkg" by auto
    with Cons.prems(4) have inS: "pkg \<in> S" by simp
    from False Cons.prems(1) obtain r1 where
      r1: "resolve n d pkg r = Some (Inr r1)" and rest: "resolve_each n d pkgs r1 = Some (Inr r')"
      by (auto split: option.splits sum.splits)
    from resolve_within(1)[OF r1 inS Cons.prems(5,6)] have o1: "set (order r1) \<subseteq> S" .
    from resolve_inv(1)[OF r1 Cons.prems(2) ni] have post: "res_post d r r1" by simp
    then have inv1: "res_inv d r1" and sub: "resolved r \<subseteq> resolved r1"
      by (simp_all add: res_post_def)
    from Cons.prems(3) sub have "\<forall>p \<in> set pkgs. IsInstalled d p \<longrightarrow> p \<in> resolved r1" by auto
    from Cons.IH[OF rest inv1 this rest_S o1 Cons.prems(6)] show ?thesis .
  qed
qed

section \<open>Claims about the resolver\<close>

subsection \<open>Acyclic catalogs\<close>

lemma tranclp_rank:
  fixes f :: "'a \<Rightarrow> nat"
  assumes "\<And>x y. R x y \<Longrightarrow> f y < f x"
  shows "tranclp R x y \<Longrightarrow> f y < f x"
proof (induction rule: tranclp_induct)
  case (base y)
  then show ?case by (rule assms)
next
  case (step y z)
  from assms[OF step.hyps(2)] step.IH show ?case by simp
qed

lemma dag_rank:
  fixes f :: "string \<Rightarrow> nat"
  assumes "\<And>x y. dep_edge d x y \<Longrightarrow> f y < f x"
  shows "dag d"
  unfolding dag_def
proof (intro allI notI)
  fix x assume "tranclp (dep_edge d) x x"
  from tranclp_rank[of "dep_edge d" f, OF assms this] show False by simp
qed

lemma packages_skip_db:
  "packages skip_db =
     [(''a'', \<lparr>p_version = ''1.0.0'', p_description = '''', p_dependencies = [], p_files = [],
               p_checksum = '''', p_size = 0\<rparr>),
      (''m'', \<lparr>p_version = ''1.0.0'', p_description = '''', p_dependencies = [''a''], p_files = [],
               p_checksum = '''', p_size = 0\<rparr>),
      (''b'', \<lparr>p_version = ''1.0.0'', p_description = '''', p_dependencies = [''m''], p_files = [],
               p_checksum = '''', p_size = 0\<rparr>)]"
  by (simp add: skip_db_def RecordInstallation_def AddPackage_def empty_db_def test_pkg_def
      insert_or_replace_def)

lemma parse_plain: "parseDependency ''a'' = ''a''" "parseDependency ''m'' = ''m''"
  by code_simp+

lemma dep_edge_skip_db:
  "dep_edge skip_db x y \<Longrightarrow> (x = ''m'' \<and> y = ''a'') \<or> (x = ''b'' \<and> y = ''m'')"
  by (auto simp: dep_edge_def GetDependencies_def packages_skip_db parse_plain split: if_splits)

lemma dag_skip_db: "dag skip_db"
proof (rule dag_rank)
  fix x y assume "dep_edge skip_db x y"
  then show "(if y = ''b'' then 2 else if y = ''m'' then 1 else (0::nat))
           < (if x = ''b'' then 2 else if x = ''m'' then 1 else 0)"
    by (auto dest!: dep_edge_skip_db)
qed

subsection \<open>C1: dependencies come first\<close>

text \<open>
  As stated, C1 fails where a dependency chain passes through an installed package:
  the resolver does not look behind an installed dependency. In \<open>skip_db\<close> the
  package b needs m, m needs a, and only m is installed; the catalog is a DAG, a is
  a transitive dependency of b, neither is installed, and the request b, a is
  answered with b before a.
\<close>

theorem Resolve_installed_link_counterexample:
  "dag skip_db
   \<and> tranclp (dep_edge skip_db) ''b'' ''a''
   \<and> \<not> IsInstalled skip_db ''a'' \<and> \<not> IsInstalled skip_db ''b''
   \<and> Resolve skip_db [''b'', ''a''] = Some (Inr [''b'', ''a''])
   \<and> \<not> before ''a'' ''b'' [''b'', ''a'']"
proof -
  have e1: "dep_edge skip_db ''b'' ''m''" by code_simp
  have e2: "dep_edge skip_db ''m'' ''a''" by code_simp
  from e1 have "tranclp (dep_edge skip_db) ''b'' ''m''" by (rule tranclp.r_into_trancl)
  from this e2 have "tranclp (dep_edge skip_db) ''b'' ''a''" by (rule tranclp.trancl_into_trancl)
  moreover have "\<not> IsInstalled skip_db ''a''" "\<not> IsInstalled skip_db ''b''" by code_simp+
  moreover have "Resolve skip_db [''b'', ''a''] = Some (Inr [''b'', ''a''])" by code_simp
  moreover have "\<not> before ''a'' ''b'' [''b'', ''a'']" by simp
  ultimately show ?thesis using dag_skip_db by simp
qed

text \<open>
  C1, amended: whenever \<^verbatim>\<open>Resolve\<close> succeeds, if B is in the returned list and A is
  reached from B by a chain of dependencies none of which is installed, then A is in
  the list strictly before B; and for the chain level0, level1, level2, level3 the
  request level3 returns exactly the four names, dependency first. No assumption on
  the catalog is needed: success already excludes a cycle on the way.
\<close>

theorem Resolve_dependencies_first:
  assumes "Resolve d pkgs = Some (Inr out)"
    and "tranclp (needs d) b a"
    and "b \<in> set out"
  shows "before a b out
         \<and> Resolve deep_db [''level3''] = Some (Inr [''level0'', ''level1'', ''level2'', ''level3''])"
proof -
  have "Resolve deep_db [''level3''] = Some (Inr [''level0'', ''level1'', ''level2'', ''level3''])"
    by code_simp
  with Resolve_before_trans[OF assms] show ?thesis by simp
qed

theorem Resolve_dependencies_first_witness:
  "Resolve deep_db [''level3''] = Some (Inr [''level0'', ''level1'', ''level2'', ''level3''])
   \<and> tranclp (needs deep_db) ''level3'' ''level0''
   \<and> ''level3'' \<in> set [''level0'', ''level1'', ''level2'', ''level3'']
   \<and> before ''level0'' ''level3'' [''level0'', ''level1'', ''level2'', ''level3'']"
proof -
  have r: "Resolve deep_db [''level3''] = Some (Inr [''level0'', ''level1'', ''level2'', ''level3''])"
    by code_simp
  have n3: "needs deep_db ''level3'' ''level2''" by code_simp
  have n2: "needs deep_db ''level2'' ''level1''" by code_simp
  have n1: "needs deep_db ''level1'' ''level0''" by code_simp
  from n3 have "tranclp (needs deep_db) ''level3'' ''level2''" by (rule tranclp.r_into_trancl)
  from this n2 have "tranclp (needs deep_db) ''level3'' ''level1''" by (rule tranclp.trancl_into_trancl)
  from this n1 have t: "tranclp (needs deep_db) ''level3'' ''level0''" by (rule tranclp.trancl_into_trancl)
  have m: "''level3'' \<in> set [''level0'', ''level1'', ''level2'', ''level3'']" by simp
  from Resolve_dependencies_first[OF r t m] r t m show ?thesis by simp
qed

subsection \<open>C2: cycles are reported\<close>

text \<open>
  As stated, C2 fails where the cycle passes through an installed package: in
  \<open>circular_installed_db\<close> b needs a and a needs b, a is installed, and the request b
  is answered with the list b.
\<close>

theorem Resolve_installed_cycle_counterexample:
  "tranclp (dep_edge circular_installed_db) ''b'' ''b''
   \<and> Resolve circular_installed_db [''b''] = Some (Inr [''b''])"
proof -
  have e1: "dep_edge circular_installed_db ''b'' ''a''" by code_simp
  have e2: "dep_edge circular_installed_db ''a'' ''b''" by code_simp
  from e1 have "tranclp (dep_edge circular_installed_db) ''b'' ''a''" by (rule tranclp.r_into_trancl)
  from this e2 have "tranclp (dep_edge circular_installed_db) ''b'' ''b''"
    by (rule tranclp.trancl_into_trancl)
  moreover have "Resolve circular_installed_db [''b''] = Some (Inr [''b''])" by code_simp
  ultimately show ?thesis by simp
qed

lemma Resolve_closed:
  assumes res: "Resolve d pkgs = Some (Inr out)"
  shows "rtranclp (needs d) p c \<Longrightarrow> p \<in> set out \<Longrightarrow> c \<in> set out"
proof (induction rule: rtranclp_induct)
  case base
  then show ?case .
next
  case (step y z)
  from step.IH[OF step.prems] have "y \<in> set out" .
  with Resolve_success(3)[OF res] step.hyps(2) have "before z y out" by blast
  then show ?case by (simp add: before_mem)
qed

text \<open>
  C2, amended: if a requested name that is not installed reaches, through
  dependencies that are not installed, a name that lies on a cycle of such
  dependencies, then \<^verbatim>\<open>Resolve\<close> returns (the depth bound is not reached) and what it
  returns is a \<open>CircularDependency\<close> error, never a list; for the catalog where a needs
  b and b needs a the request a reports the cycle at a.
\<close>

theorem Resolve_cycle:
  assumes "p \<in> set pkgs" and "\<not> IsInstalled d p"
    and "rtranclp (needs d) p c" and "tranclp (needs d) c c"
  shows "(\<exists>x. Resolve d pkgs = Some (Inl (CircularDependency x)))
         \<and> Resolve circular_db [''a''] = Some (Inl (CircularDependency ''a''))"
proof -
  have ex: "Resolve circular_db [''a''] = Some (Inl (CircularDependency ''a''))" by code_simp
  from Resolve_returns[of d pkgs] obtain res where res: "Resolve d pkgs = Some res" by auto
  show ?thesis
  proof (cases res)
    case (Inl e)
    with res Resolve_error[of d pkgs e] ex show ?thesis by auto
  next
    case (Inr out)
    with res have r: "Resolve d pkgs = Some (Inr out)" by simp
    from Resolve_success(4)[OF r] assms(1,2) have "p \<in> set out" by blast
    from Resolve_closed[OF r assms(3) this] have "c \<in> set out" .
    from Resolve_before_trans[OF r assms(4) this] have "before c c out" .
    from before_mem[OF this] have False by simp
    then show ?thesis ..
  qed
qed

theorem Resolve_cycle_witness:
  "''a'' \<in> set [''a''] \<and> \<not> IsInstalled circular_db ''a''
   \<and> rtranclp (needs circular_db) ''a'' ''a'' \<and> tranclp (needs circular_db) ''a'' ''a''
   \<and> (\<exists>x. Resolve circular_db [''a''] = Some (Inl (CircularDependency x)))"
proof -
  have m: "''a'' \<in> set [''a'']" by simp
  have i: "\<not> IsInstalled circular_db ''a''" by code_simp
  have n1: "needs circular_db ''a'' ''b''" by code_simp
  have n2: "needs circular_db ''b'' ''a''" by code_simp
  have r: "rtranclp (needs circular_db) ''a'' ''a''" by simp
  from n1 have "tranclp (needs circular_db) ''a'' ''b''" by (rule tranclp.r_into_trancl)
  from this n2 have t: "tranclp (needs circular_db) ''a'' ''a''" by (rule tranclp.trancl_into_trancl)
  from Resolve_cycle[OF m i r t] m i r t show ?thesis by simp
qed

subsection \<open>C8: installed packages are left out\<close>

lemma Resolve_reachable:
  assumes "Resolve d pkgs = Some (Inr out)"
  shows "set out = reachable d pkgs"
proof
  let ?r0 = "mark_installed d pkgs \<lparr>resolved = {}, unresolved = {}, order = []\<rparr>"
  from assms obtain r where
    r: "resolve_each (Suc (length (packages d))) d pkgs ?r0 = Some (Inr r)"
    and out: "out = filter (\<lambda>pkg. \<not> IsInstalled d pkg) (order r)"
    by (auto simp: Resolve_def Resolve_bounded_def Let_def split: option.splits sum.splits)
  have inv0: "res_inv d ?r0" by (auto simp: res_inv_def mark_installed_fields)
  have m0: "\<forall>p \<in> set pkgs. IsInstalled d p \<longrightarrow> p \<in> resolved ?r0"
    by (simp add: mark_installed_fields)
  have roots: "\<forall>p \<in> set pkgs. \<not> IsInstalled d p \<longrightarrow> p \<in> reachable d pkgs"
    by (auto simp: reachable_def)
  have o0: "set (order ?r0) \<subseteq> reachable d pkgs" by (simp add: mark_installed_fields)
  from resolve_each_within[OF r inv0 m0 roots o0 reachable_closed]
  have "set (order r) \<subseteq> reachable d pkgs" .
  with out show "set out \<subseteq> reachable d pkgs" by auto
next
  show "reachable d pkgs \<subseteq> set out"
  proof
    fix p assume "p \<in> reachable d pkgs"
    then obtain q where q: "q \<in> set pkgs" "\<not> IsInstalled d q" "rtranclp (needs d) q p"
      by (auto simp: reachable_def)
    from Resolve_success(4)[OF assms] q(1,2) have "q \<in> set out" by blast
    from Resolve_closed[OF assms q(3) this] show "p \<in> set out" .
  qed
qed

text \<open>
  C8: when \<^verbatim>\<open>Resolve\<close> returns a list, the list holds exactly the requested names that
  are not installed and the names reached from them through dependencies that are
  not installed. So a package that is already installed, whether requested or
  reached as a dependency, is not in the list, and nothing is listed on its account:
  it counts as satisfied. The order is satisfied with it: every dependency of a
  listed package is either installed or strictly before that package in the list.
  Requesting app, whose only dependency base is installed, returns exactly the list
  app.
\<close>

theorem Resolve_excludes_installed:
  assumes "Resolve d pkgs = Some (Inr out)"
  shows "set out = reachable d pkgs
       \<and> (\<forall>p. IsInstalled d p \<longrightarrow> p \<notin> set out)
       \<and> (\<forall>p \<in> set out. \<forall>a. dep_edge d p a \<longrightarrow> IsInstalled d a \<or> before a p out)
       \<and> Resolve app_db [''app''] = Some (Inr [''app''])"
proof -
  have "set out = reachable d pkgs" using assms by (rule Resolve_reachable)
  moreover have "\<forall>p. IsInstalled d p \<longrightarrow> p \<notin> set out"
    using Resolve_success(2)[OF assms] by blast
  moreover have "\<forall>p \<in> set out. \<forall>a. dep_edge d p a \<longrightarrow> IsInstalled d a \<or> before a p out"
    using Resolve_success(3)[OF assms] by (auto simp: needs_def)
  moreover have "Resolve app_db [''app''] = Some (Inr [''app''])" by code_simp
  ultimately show ?thesis by blast
qed

theorem Resolve_excludes_installed_witness:
  "Resolve app_db [''app''] = Some (Inr [''app''])
   \<and> set [''app''] = reachable app_db [''app'']
   \<and> IsInstalled app_db ''base'' \<and> ''base'' \<notin> set [''app'']
   \<and> ''app'' \<in> set [''app''] \<and> dep_edge app_db ''app'' ''base''
   \<and> (IsInstalled app_db ''base'' \<or> before ''base'' ''app'' [''app''])"
proof -
  have r: "Resolve app_db [''app''] = Some (Inr [''app''])" by code_simp
  have i: "IsInstalled app_db ''base''" by code_simp
  have e: "dep_edge app_db ''app'' ''base''" by code_simp
  note T = Resolve_excludes_installed[OF r]
  from T have s: "set [''app''] = reachable app_db [''app'']" by blast
  from T i have n: "''base'' \<notin> set [''app'']" by blast
  have m: "''app'' \<in> set [''app'']" by simp
  from r s i n m e show ?thesis by blast
qed

section \<open>Claims about versions and specifiers\<close>

subsection \<open>C9: numeric comparison of versions\<close>

lemma strings_Split_not_Nil: "sep \<noteq> [] \<Longrightarrow> strings_Split s sep \<noteq> []"
  by (subst strings_Split.simps) (simp split: option.splits)

lemma scan_part_drop:
  "i < length parts \<Longrightarrow>
     map segment_value (drop i parts) = scan_part parts i # map segment_value (drop (Suc i) parts)"
  by (simp add: scan_part_def segment_value_def Cons_nth_drop_Suc [symmetric])

lemma scan_part_beyond: "length parts \<le> i \<Longrightarrow> scan_part parts i = 0"
  by (simp add: scan_part_def)

lemma compareVersions_loop_padded:
  "maxLen = max (length parts1) (length parts2) \<Longrightarrow>
   compareVersions_loop parts1 parts2 maxLen i =
     compare_padded (map segment_value (drop i parts1)) (map segment_value (drop i parts2))"
proof (induction parts1 parts2 maxLen i rule: compareVersions_loop.induct)
  case (1 parts1 parts2 maxLen i)
  show ?case
  proof (cases "i < maxLen")
    case False
    then have "compareVersions_loop parts1 parts2 maxLen i = 0"
      by (simp add: compareVersions_loop.simps[of parts1 parts2 maxLen i])
    moreover from False "1.prems" have "drop i parts1 = []" "drop i parts2 = []" by simp_all
    ultimately show ?thesis by simp
  next
    case True
    let ?n1 = "scan_part parts1 i" and ?n2 = "scan_part parts2 i"
    let ?rest = "compare_padded (map segment_value (drop (Suc i) parts1))
                   (map segment_value (drop (Suc i) parts2))"
    have loop: "compareVersions_loop parts1 parts2 maxLen i =
        (if ?n1 < ?n2 then - 1 else if ?n1 > ?n2 then 1 else ?rest)"
    proof (cases "?n1 < ?n2 \<or> ?n1 > ?n2")
      case True
      with \<open>i < maxLen\<close> show ?thesis
        by (auto simp: compareVersions_loop.simps[of parts1 parts2 maxLen i] Let_def)
    next
      case False
      then have eq: "\<not> ?n1 < ?n2" "\<not> ?n1 > ?n2" by auto
      from "1.IH"[OF \<open>i < maxLen\<close> refl refl eq "1.prems"] \<open>i < maxLen\<close> eq show ?thesis
        by (simp add: compareVersions_loop.simps[of parts1 parts2 maxLen i] Let_def)
    qed
    consider (both) "i < length parts1" "i < length parts2"
      | (left) "i < length parts1" "length parts2 \<le> i"
      | (right) "length parts1 \<le> i" "i < length parts2"
      using True "1.prems" by fastforce
    then show ?thesis
    proof cases
      case both
      then show ?thesis by (simp add: loop scan_part_drop)
    next
      case left
      then show ?thesis by (simp add: loop scan_part_drop scan_part_beyond)
    next
      case right
      then show ?thesis by (simp add: loop scan_part_drop scan_part_beyond)
    qed
  qed
qed

lemma compareVersions_padded:
  "compareVersions v1 v2 =
     compare_padded (map segment_value (strings_Split v1 ''.''))
                    (map segment_value (strings_Split v2 ''.''))"
proof -
  have "(if length (strings_Split v2 ''.'') > length (strings_Split v1 ''.'')
         then length (strings_Split v2 ''.'') else length (strings_Split v1 ''.''))
        = max (length (strings_Split v1 ''.'')) (length (strings_Split v2 ''.''))"
    by simp
  then show ?thesis
    using compareVersions_loop_padded[of _ "strings_Split v1 ''.''" "strings_Split v2 ''.''" 0]
    by (simp add: compareVersions_def Let_def)
qed

text \<open>
  C9: \<^verbatim>\<open>compareVersions\<close> gives 1 on 1.0.1 against 1.0.0, 0 on 1.0 against 1.0.0 and 1 on
  1.10.0 against 1.9.0; and on all inputs it is the comparison, segment by segment,
  of the numeric values of the dot-separated segments, a missing trailing segment
  counting as 0.
\<close>

theorem compareVersions_numeric:
  "compareVersions ''1.0.1'' ''1.0.0'' = 1
   \<and> compareVersions ''1.0'' ''1.0.0'' = 0
   \<and> compareVersions ''1.10.0'' ''1.9.0'' = 1
   \<and> compareVersions v1 v2 =
       compare_padded (map segment_value (strings_Split v1 ''.''))
                      (map segment_value (strings_Split v2 ''.''))"
proof -
  have "compareVersions ''1.0.1'' ''1.0.0'' = 1" by code_simp
  moreover have "compareVersions ''1.0'' ''1.0.0'' = 0" by code_simp
  moreover have "compareVersions ''1.10.0'' ''1.9.0'' = 1" by code_simp
  ultimately show ?thesis using compareVersions_padded[of v1 v2] by simp
qed

subsection \<open>C7: the two specifier parsers\<close>

text \<open>
  C7: the name \<^verbatim>\<open>GetReverseDependencies\<close> extracts from a specifier should be the name
  \<^verbatim>\<open>parseDependency\<close> extracts. It is not: the store splits at \<open>>=\<close>, \<open><=\<close> and \<open>=\<close> only,
  so on \<open>base>1.0\<close> the resolver's parser gives \<open>base\<close> and the store keeps the whole
  specifier; app, installed and depending on \<open>base>1.0\<close>, is then not among the
  reverse dependencies of base, while with \<open>base>=1.0\<close> it is.
\<close>

theorem revdep_name_ignores_greater:
  "parseDependency ''base>1.0'' = ''base''
   \<and> revdep_name ''base>1.0'' = ''base>1.0''
   \<and> GetReverseDependencies (revdep_db ''base>1.0'') ''base'' = []
   \<and> GetReverseDependencies (revdep_db ''base>=1.0'') ''base'' = [''app'']"
proof -
  have "parseDependency ''base>1.0'' = ''base''" by code_simp
  moreover have "revdep_name ''base>1.0'' = ''base>1.0''" by code_simp
  moreover have "GetReverseDependencies (revdep_db ''base>1.0'') ''base'' = []" by code_simp
  moreover have "GetReverseDependencies (revdep_db ''base>=1.0'') ''base'' = [''app'']"
    by code_simp
  ultimately show ?thesis by simp
qed

section \<open>Claims about the transaction engine\<close>

subsection \<open>Fields an operation leaves alone\<close>

lemma emit_fields [simp]:
  "db (emit m s p msg w) = db w"
  "fsys (emit m s p msg w) = fsys w"
  "scripts (emit m s p msg w) = scripts w"
  by (simp_all add: emit_def)

lemma runScript_fields [simp]:
  "db (snd (runScript e script name w)) = db w"
  "scripts (snd (runScript e script name w)) = scripts w @ [(name, script)]"
  by (simp_all add: runScript_def Let_def split: prod.splits)

lemma removeFiles_fields [simp]:
  "fst (removeFiles fls w) = None"
  "db (snd (removeFiles fls w)) = db w"
  "scripts (snd (removeFiles fls w)) = scripts w"
  "fsys (snd (removeFiles fls w)) = fold removeFiles_step (rev fls) (fsys w)"
  by (simp_all add: removeFiles_def)

lemma installFiles_fields [simp]:
  "db (snd (installFiles e pkgPath w)) = db w"
  "scripts (snd (installFiles e pkgPath w)) = scripts w"
  by (simp_all add: installFiles_def split: sum.splits option.splits prod.splits)

lemma downloadPackage_fields [simp]:
  "db (snd (downloadPackage e m name version w)) = db w"
  "scripts (snd (downloadPackage e m name version w)) = scripts w"
  by (simp_all add: downloadPackage_def Let_def split: http_result.splits prod.splits sum.splits)

subsection \<open>The ledger and removal\<close>

text \<open>No ledger lookup yields a script, so \<^verbatim>\<open>Remove\<close> never reaches \<^verbatim>\<open>runScript\<close>: on an
  installed package it always runs to the end.\<close>

lemma IsInstalled_iff: "IsInstalled d name \<longleftrightarrow> map_of (installed d) name \<noteq> None"
proof -
  have "filter (\<lambda>r. fst r = name) xs \<noteq> [] \<longleftrightarrow> map_of xs name \<noteq> None" for xs :: "(string \<times> inst_row) list"
    by (induction xs) auto
  then show ?thesis by (simp add: IsInstalled_def)
qed

lemma IsInstalled_RemoveInstallation [simp]: "\<not> IsInstalled (RemoveInstallation d name) name"
  by (simp add: IsInstalled_def RemoveInstallation_def)

lemma GetInstalledPackage_no_scripts:
  "GetInstalledPackage scan d name = Some i \<Longrightarrow> PreRemove i = '''' \<and> PostRemove i = ''''"
  by (auto simp: GetInstalledPackage_def Let_def split: option.splits)

lemma Remove_installed:
  assumes "IsInstalled (db w) name"
  shows "fst (Remove e m name purge w) = None"
    and "db (snd (Remove e m name purge w)) = RemoveInstallation (db w) name"
    and "scripts (snd (Remove e m name purge w)) = scripts w"
proof -
  from assms obtain irow where "map_of (installed (db w)) name = Some irow"
    by (auto simp: IsInstalled_iff)
  then have fls: "GetInstalledFiles (db w) name = Some (i_files irow)"
    by (simp add: GetInstalledFiles_def)
  let ?w1 = "emit m ''start'' 0 ''Starting removal'' w"
  let ?info = "GetInstalledPackage (scan_dependencies e) (db w) name"
  have pre: "(case ?info of
                Some i \<Rightarrow>
                  if PreRemove i \<noteq> ''''
                  then runScript e (PreRemove i) ''pre-remove''
                         (emit m ''pre-remove'' 10 ''Running pre-remove script'' ?w1)
                  else (None, ?w1)
              | None \<Rightarrow> (None, ?w1)) = (None, ?w1)"
    by (auto split: option.splits dest: GetInstalledPackage_no_scripts)
  have post: "(case ?info of
                Some i \<Rightarrow>
                  if PostRemove i \<noteq> ''''
                  then runScript e (PostRemove i) ''post-remove''
                         (emit m ''post-remove'' 80 ''Running post-remove script'' w4)
                  else (None, w4)
              | None \<Rightarrow> (None, w4)) = (None, w4)" for w4
    by (auto split: option.splits dest: GetInstalledPackage_no_scripts)
  have eq: "Remove e m name purge w =
      (None, emit m ''done'' 100 ''Removal complete''
         ((snd (removeFiles (i_files irow) (emit m ''remove-files'' 50 ''Removing files'' ?w1)))
            \<lparr>db := RemoveInstallation
                    (db (snd (removeFiles (i_files irow)
                           (emit m ''remove-files'' 50 ''Removing files'' ?w1)))) name\<rparr>))"
    unfolding Remove_def using assms fls
    by (simp add: Let_def pre post removeFiles_def)
  show "fst (Remove e m name purge w) = None" by (simp add: eq)
  show "db (snd (Remove e m name purge w)) = RemoveInstallation (db w) name" by (simp add: eq)
  show "scripts (snd (Remove e m name purge w)) = scripts w" by (simp add: eq)
qed

lemma Remove_runs_no_script: "scripts (snd (Remove e m name purge w)) = scripts w"
proof (cases "IsInstalled (db w) name")
  case True
  then show ?thesis by (rule Remove_installed(3))
next
  case False
  then show ?thesis by (simp add: Remove_def)
qed

lemma Remove_error:
  "fst (Remove e m name purge w) = None \<or> fst (Remove e m name purge w) = Some (NotInstalled name)"
proof (cases "IsInstalled (db w) name")
  case True
  then show ?thesis by (simp add: Remove_installed(1))
next
  case False
  then show ?thesis by (simp add: Remove_def)
qed

subsection \<open>Path resolution and removal\<close>

text \<open>
  Three facts about \<open>walk\<close>. A path that ends in a separator, \<open>.\<close> or \<open>..\<close> leads to a
  directory. Where following links leads to a regular file, the path names an entry
  that is not a directory. Once that entry is deleted, resolving the path again
  fails or stops at the place of the deleted entry. So a file that can be read
  through a path is not found through it any more after \<^verbatim>\<open>os.Remove\<close> of the path,
  unless the entry is read-only.
\<close>

lemma map_of_filter_key:
  "map_of (filter (\<lambda>r. fst r \<noteq> k) xs) q = (if q = k then None else map_of xs q)"
  by (induction xs) auto

lemma fs_lookup_delete:
  "fs_lookup (fs_delete f k) q = (if q = k \<and> q \<noteq> [] then None else fs_lookup f q)"
  by (simp add: fs_lookup_def fs_delete_def map_of_filter_key)

lemma fs_lookup_root [simp]: "fs_lookup f [] = Some Dir"
  by (simp add: fs_lookup_def)

lemma walk_dir:
  "walk f fuel fl cur cs = Inr k \<Longrightarrow> \<forall>j. prefix j cur \<longrightarrow> fs_lookup f j = Some Dir
     \<Longrightarrow> cs \<noteq> [] \<Longrightarrow> last cs = '''' \<or> last cs = ''.'' \<or> last cs = ''..''
     \<Longrightarrow> fs_lookup f k = Some Dir"
proof (induction f fuel fl cur cs rule: walk.induct)
  case (1 fs fuel follow cur)
  then show ?case by simp
next
  case (2 fs fuel follow cur c cs)
  note chain = "2.prems"(2)
  show ?case
  proof (cases "cs = []")
    case True
    with "2.prems"(4) have c: "c = '''' \<or> c = ''.'' \<or> c = ''..''" by simp
    have "prefix (butlast cur) cur" by (rule prefixeq_butlast)
    with chain have "fs_lookup fs (butlast cur) = Some Dir" "fs_lookup fs cur = Some Dir"
      by simp_all
    with c True "2.prems"(1) show ?thesis by auto
  next
    case False
    with "2.prems"(4) have l: "last cs = '''' \<or> last cs = ''.'' \<or> last cs = ''..''" by simp
    show ?thesis
    proof (cases "c = '''' \<or> c = ''.''")
      case True
      with "2.prems"(1) have "walk fs fuel follow cur cs = Inr k" by auto
      from "2.IH"(1)[OF True this chain False l] show ?thesis .
    next
      case skip: False
      show ?thesis
      proof (cases "c = ''..''")
        case True
        with skip "2.prems"(1) have w: "walk fs fuel follow (butlast cur) cs = Inr k" by simp
        have "\<forall>j. prefix j (butlast cur) \<longrightarrow> fs_lookup fs j = Some Dir"
          using chain prefixeq_butlast prefix_order.order_trans by blast
        from "2.IH"(2)[OF skip True w this False l] show ?thesis .
      next
        case dd: False
        show ?thesis
        proof (cases "fs_lookup fs (cur @ [c])")
          case None
          with skip dd False "2.prems"(1) show ?thesis by simp
        next
          case (Some x)
          show ?thesis
          proof (cases x)
            case Dir
            with Some skip dd "2.prems"(1) have w: "walk fs fuel follow (cur @ [c]) cs = Inr k"
              by simp
            have "\<forall>j. prefix j (cur @ [c]) \<longrightarrow> fs_lookup fs j = Some Dir"
              using chain Some Dir by (auto simp: prefix_snoc)
            from "2.IH"(3)[OF skip dd Some Dir w this False l] show ?thesis .
          next
            case (Reg content)
            with Some skip dd False "2.prems"(1) show ?thesis by simp
          next
            case (Symlink t)
            with Some skip dd False "2.prems"(1) obtain n where
              n: "fuel = Suc n"
              and w: "walk fs n follow (if strings_HasPrefix t ''/'' then [] else cur)
                        (strings_Split t ''/'' @ cs) = Inr k"
              by (cases fuel) auto
            have nf: "\<not> (cs = [] \<and> \<not> follow)" using False by simp
            have ch: "\<forall>j. prefix j (if strings_HasPrefix t ''/'' then [] else cur)
                        \<longrightarrow> fs_lookup fs j = Some Dir"
              using chain by auto
            have ne: "strings_Split t ''/'' @ cs \<noteq> []" using False by simp
            have la: "last (strings_Split t ''/'' @ cs) = ''''
                    \<or> last (strings_Split t ''/'' @ cs) = ''.''
                    \<or> last (strings_Split t ''/'' @ cs) = ''..''"
              using l False by simp
            from "2.IH"(4)[OF skip dd Some Symlink nf n w ch ne la] show ?thesis .
          qed
        qed
      qed
    qed
  qed
qed

lemma walk_nofollow:
  "walk f fuel fl cur cs = Inr k' \<Longrightarrow> fl \<Longrightarrow> fs_lookup f k' = Some (Reg content)
     \<Longrightarrow> \<exists>k n. walk f fuel False cur cs = Inr k \<and> fs_lookup f k = Some n \<and> n \<noteq> Dir"
proof (induction f fuel fl cur cs rule: walk.induct)
  case (1 fs fuel follow cur)
  then show ?case by simp
next
  case (2 fs fuel follow cur c cs)
  show ?case
  proof (cases "c = '''' \<or> c = ''.''")
    case True
    with "2.prems"(1) have "walk fs fuel follow cur cs = Inr k'" by auto
    from "2.IH"(1)[OF True this "2.prems"(2,3)] True show ?thesis by auto
  next
    case skip: False
    show ?thesis
    proof (cases "c = ''..''")
      case True
      with skip "2.prems"(1) have "walk fs fuel follow (butlast cur) cs = Inr k'" by simp
      from "2.IH"(2)[OF skip True this "2.prems"(2,3)] skip True show ?thesis by simp
    next
      case dd: False
      show ?thesis
      proof (cases "fs_lookup fs (cur @ [c])")
        case None
        with skip dd "2.prems"(1,3) show ?thesis by (auto split: if_splits)
      next
        case (Some x)
        show ?thesis
        proof (cases x)
          case Dir
          with Some skip dd "2.prems"(1) have "walk fs fuel follow (cur @ [c]) cs = Inr k'"
            by simp
          from "2.IH"(3)[OF skip dd Some Dir this "2.prems"(2,3)] Some Dir skip dd
          show ?thesis by simp
        next
          case (Reg x2)
          with Some skip dd "2.prems"(1) show ?thesis by (auto split: if_splits)
        next
          case (Symlink t)
          with Some skip dd "2.prems"(1,2) obtain n where
            n: "fuel = Suc n"
            and w: "walk fs n follow (if strings_HasPrefix t ''/'' then [] else cur)
                      (strings_Split t ''/'' @ cs) = Inr k'"
            by (cases fuel) auto
          have nf: "\<not> (cs = [] \<and> \<not> follow)" using "2.prems"(2) by simp
          show ?thesis
          proof (cases "cs = []")
            case True
            with Some Symlink skip dd show ?thesis by simp
          next
            case False
            from "2.IH"(4)[OF skip dd Some Symlink nf n w "2.prems"(2,3)]
            show ?thesis using Some Symlink skip dd False n by simp
          qed
        qed
      qed
    qed
  qed
qed

lemma walk_deleted:
  "walk f fuel fl0 cur cs = Inr k \<Longrightarrow> \<not> fl0 \<Longrightarrow> fs_lookup f k \<noteq> Some Dir
     \<Longrightarrow> walk (fs_delete f k) fuel fl cur cs = Inl ErrNotExist
       \<or> walk (fs_delete f k) fuel fl cur cs = Inr k"
proof (induction f fuel fl0 cur cs rule: walk.induct)
  case (1 fs fuel follow cur)
  then show ?case by simp
next
  case (2 fs fuel follow cur c cs)
  let ?f' = "fs_delete fs k"
  let ?q = "cur @ [c]"
  have look: "fs_lookup ?f' ?q = (if ?q = k then None else fs_lookup fs ?q)"
    by (simp add: fs_lookup_delete)
  show ?case
  proof (cases "c = '''' \<or> c = ''.''")
    case True
    with "2.prems"(1) have "walk fs fuel follow cur cs = Inr k" by auto
    from "2.IH"(1)[OF True this "2.prems"(2,3)] True show ?thesis by auto
  next
    case skip: False
    show ?thesis
    proof (cases "c = ''..''")
      case True
      with skip "2.prems"(1) have "walk fs fuel follow (butlast cur) cs = Inr k" by simp
      from "2.IH"(2)[OF skip True this "2.prems"(2,3)] skip True show ?thesis by simp
    next
      case dd: False
      show ?thesis
      proof (cases "fs_lookup fs ?q")
        case None
        with skip dd "2.prems"(1) have "cs = []" "k = ?q" by (auto split: if_splits)
        with skip dd look show ?thesis by simp
      next
        case (Some x)
        show ?thesis
        proof (cases x)
          case Dir
          with Some "2.prems"(3) have "?q \<noteq> k" by auto
          with look Some Dir have l': "fs_lookup ?f' ?q = Some Dir" by simp
          from Some Dir skip dd "2.prems"(1) have "walk fs fuel follow ?q cs = Inr k" by simp
          from "2.IH"(3)[OF skip dd Some Dir this "2.prems"(2,3)] l' skip dd
          show ?thesis by simp
        next
          case (Reg x2)
          with Some skip dd "2.prems"(1) have "cs = []" "k = ?q" by (auto split: if_splits)
          with skip dd look show ?thesis by simp
        next
          case (Symlink t)
          show ?thesis
          proof (cases "cs = []")
            case True
            with Some Symlink skip dd "2.prems"(1,2) have "k = ?q" by simp
            with True skip dd look show ?thesis by simp
          next
            case False
            with Some Symlink skip dd "2.prems"(1) obtain n where
              n: "fuel = Suc n"
              and w: "walk fs n follow (if strings_HasPrefix t ''/'' then [] else cur)
                        (strings_Split t ''/'' @ cs) = Inr k"
              by (cases fuel) auto
            have nf: "\<not> (cs = [] \<and> \<not> follow)" using False by simp
            show ?thesis
            proof (cases "?q = k")
              case True
              with look have "fs_lookup ?f' ?q = None" by simp
              with skip dd False show ?thesis by simp
            next
              case ne: False
              with look Some Symlink have "fs_lookup ?f' ?q = Some (Symlink t)" by simp
              with "2.IH"(4)[OF skip dd Some Symlink nf n w "2.prems"(2,3)] skip dd False n
              show ?thesis by simp
            qed
          qed
        qed
      qed
    qed
  qed
qed

lemma entry_elements_same:
  assumes "last (elements p) \<noteq> ''''"
  shows "entry_elements p = elements p"
proof -
  have ne: "elements p \<noteq> []" by (simp add: elements_def strings_Split_not_Nil)
  then have "hd (rev (elements p)) \<noteq> ''''" using assms by (simp add: hd_rev)
  moreover from ne have "rev (elements p) \<noteq> []" by simp
  ultimately have "dropWhile (\<lambda>c. c = '''') (rev (elements p)) = rev (elements p)"
    by (cases "rev (elements p)") simp_all
  then show ?thesis by (simp add: entry_elements_def)
qed

lemma os_ReadFile_walk:
  assumes "os_ReadFile f p = Inr content"
  obtains k where "p \<noteq> ''''" and "walk f 40 True [] (elements p) = Inr k"
    and "fs_lookup f k = Some (Reg content)"
proof -
  from assms obtain n where st: "stat_node f True p = Inr n"
    by (cases "stat_node f True p") (auto simp: os_ReadFile_def)
  with assms have n: "n = Reg content" by (cases n) (auto simp: os_ReadFile_def)
  from st obtain k where k: "lookup_path f True p = Inr k" and l: "fs_lookup f k = Some n"
    by (auto simp: stat_node_def split: sum.splits option.splits)
  from k have "p \<noteq> ''''" and "walk f 40 True [] (elements p) = Inr k"
    by (auto simp: lookup_path_def split: if_splits)
  with l n show thesis by (auto intro: that)
qed

lemma os_Remove_after_ReadFile:
  assumes "os_ReadFile f p = Inr content" and "\<not> is_readonly f p"
  shows "\<not> os_Stat (snd (os_Remove f p)) p"
proof -
  from assms(1) obtain k' where p: "p \<noteq> ''''"
    and w: "walk f 40 True [] (elements p) = Inr k'"
    and reg: "fs_lookup f k' = Some (Reg content)"
    by (rule os_ReadFile_walk)
  have ne: "elements p \<noteq> []" by (simp add: elements_def strings_Split_not_Nil)
  have la: "\<not> (last (elements p) = '''' \<or> last (elements p) = ''.'' \<or> last (elements p) = ''..'')"
  proof
    assume "last (elements p) = '''' \<or> last (elements p) = ''.'' \<or> last (elements p) = ''..''"
    with walk_dir[OF w _ ne] have "fs_lookup f k' = Some Dir" by simp
    with reg show False by simp
  qed
  then have same: "entry_elements p = elements p" by (simp add: entry_elements_same)
  from walk_nofollow[OF w _ reg] obtain k n where
    nw: "walk f 40 False [] (elements p) = Inr k" and l: "fs_lookup f k = Some n" and nd: "n \<noteq> Dir"
    by auto
  from l nd have k: "k \<noteq> []" by (auto simp: fs_lookup_def)
  from p nw same have le: "lookup_entry f p = Inr k" by (simp add: lookup_entry_def)
  with assms(2) have ro: "\<not> readonly f k" by (simp add: is_readonly_def)
  from le l nd same ne la ro have rm: "os_Remove f p = (None, fs_delete f k)"
    by (simp add: os_Remove_def)
  from l nd have "fs_lookup f k \<noteq> Some Dir" by simp
  from walk_deleted[OF nw _ this, of True]
  have "walk (fs_delete f k) 40 True [] (elements p) = Inl ErrNotExist
      \<or> walk (fs_delete f k) 40 True [] (elements p) = Inr k" by simp
  moreover from k have "fs_lookup (fs_delete f k) k = None" by (simp add: fs_lookup_delete)
  ultimately have "\<not> os_Stat (fs_delete f k) p"
    using p by (auto simp: os_Stat_def stat_node_def lookup_path_def)
  with rm show ?thesis by simp
qed

subsection \<open>C4: a checksum mismatch evicts the cached archive\<close>

lemma os_ReadFile_Stat: "os_ReadFile f p = Inr content \<Longrightarrow> os_Stat f p"
  by (auto simp: os_ReadFile_def os_Stat_def split: sum.splits)

lemma downloadPackage_cached:
  "os_Stat (fsys w) (cache_path m name version) \<Longrightarrow>
   downloadPackage e m name version w = (Inr (cache_path m name version), w)"
  by (simp add: downloadPackage_def cache_path_def Let_def)

text \<open>
  C4: when the package is not installed, its catalog record declares a non-empty
  checksum, and the archive in the cache has content whose hex SHA-256 differs from
  it, \<^verbatim>\<open>Install\<close> returns the checksum-mismatch error, leaves the store unchanged (the
  package is still not installed) and has called \<^verbatim>\<open>os.Remove\<close> on the cached archive,
  which is gone afterwards unless the file system refuses the removal.
\<close>

theorem Install_checksum_mismatch:
  assumes "\<not> IsInstalled (db w) name"
    and "GetPackage (db w) name = Some info"
    and "Checksum info \<noteq> ''''"
    and "os_ReadFile (fsys w) (cache_path m name (Version info)) = Inr content"
    and "sha256_hex e content \<noteq> Checksum info"
  shows "fst (Install e m name w) =
           Some (ChecksumFailed (ChecksumMismatch (Checksum info) (sha256_hex e content)))
       \<and> db (snd (Install e m name w)) = db w
       \<and> \<not> IsInstalled (db (snd (Install e m name w))) name
       \<and> fsys (snd (Install e m name w)) = snd (os_Remove (fsys w) (cache_path m name (Version info)))
       \<and> (\<not> is_readonly (fsys w) (cache_path m name (Version info)) \<longrightarrow>
            \<not> os_Stat (fsys (snd (Install e m name w))) (cache_path m name (Version info)))"
proof -
  let ?p = "cache_path m name (Version info)"
  let ?w1 = "emit m ''start'' 0 ''Starting installation'' w"
  let ?w3 = "emit m ''verify'' 25 ''Verifying checksum'' ?w1"
  let ?err = "ChecksumMismatch (Checksum info) (sha256_hex e content)"
  from assms(4) have "os_Stat (fsys ?w1) ?p" by (simp add: os_ReadFile_Stat)
  then have dl: "downloadPackage e m name (Version info) ?w1 = (Inr ?p, ?w1)"
    by (rule downloadPackage_cached)
  from assms(4,5) have vc: "verifyChecksum e ?p (Checksum info) ?w3 = Some ?err"
    by (simp add: verifyChecksum_def Let_def)
  have eq: "Install e m name w =
      (Some (ChecksumFailed ?err), ?w3\<lparr>fsys := snd (os_Remove (fsys ?w3) ?p)\<rparr>)"
    unfolding Install_def using assms(1,2,3) by (simp add: Let_def dl vc)
  from os_Remove_after_ReadFile[OF assms(4)]
  have gone: "\<not> is_readonly (fsys w) ?p \<longrightarrow> \<not> os_Stat (snd (os_Remove (fsys w) ?p)) ?p"
    by simp
  from eq assms(1) gone show ?thesis by simp
qed

theorem Install_checksum_mismatch_witness:
  "\<not> IsInstalled (db (test_world ''svc'' ''SVC'' ''5e00'')) ''svc''
   \<and> Checksum (the (GetPackage (db (test_world ''svc'' ''SVC'' ''5e00'')) ''svc'')) = ''5e00''
   \<and> os_ReadFile (fsys (test_world ''svc'' ''SVC'' ''5e00'')) ''/cache/svc-1.0.mixpkg'' = Inr ''SVC''
   \<and> sha256_hex test_env ''SVC'' = ''5e''
   \<and> fst (Install test_env test_manager ''svc'' (test_world ''svc'' ''SVC'' ''5e00''))
       = Some (ChecksumFailed (ChecksumMismatch ''5e00'' ''5e''))
   \<and> \<not> IsInstalled (db (snd (Install test_env test_manager ''svc'' (test_world ''svc'' ''SVC'' ''5e00'')))) ''svc''
   \<and> \<not> os_Stat (fsys (snd (Install test_env test_manager ''svc'' (test_world ''svc'' ''SVC'' ''5e00''))))
         ''/cache/svc-1.0.mixpkg''"
proof -
  let ?w = "test_world ''svc'' ''SVC'' ''5e00''"
  let ?info = "\<lparr>Name = ''svc'', Version = ''1.0'', Description = '''', Dependencies = [], Files = [],
      Checksum = ''5e00'', Size = 0, Installed = False, PreRemove = '''', PostRemove = ''''\<rparr>"
  have h1: "\<not> IsInstalled (db ?w) ''svc''" by code_simp
  have h2: "GetPackage (db ?w) ''svc'' = Some ?info" by code_simp
  have h3: "Checksum ?info \<noteq> ''''" by simp
  have p: "cache_path test_manager ''svc'' (Version ?info) = ''/cache/svc-1.0.mixpkg''" by code_simp
  have h4: "os_ReadFile (fsys ?w) (cache_path test_manager ''svc'' (Version ?info)) = Inr ''SVC''"
    by code_simp
  have s: "sha256_hex test_env ''SVC'' = ''5e''" by code_simp
  then have h5: "sha256_hex test_env ''SVC'' \<noteq> Checksum ?info" by simp
  have ro: "\<not> is_readonly (fsys ?w) (cache_path test_manager ''svc'' (Version ?info))" by code_simp
  note T = Install_checksum_mismatch[OF h1 h2 h3 h4 h5]
  from h2 have g2: "Checksum (the (GetPackage (db ?w) ''svc'')) = ''5e00''" by simp
  from h4 p have g3: "os_ReadFile (fsys ?w) ''/cache/svc-1.0.mixpkg'' = Inr ''SVC''" by simp
  from T s have g5: "fst (Install test_env test_manager ''svc'' ?w)
       = Some (ChecksumFailed (ChecksumMismatch ''5e00'' ''5e''))" by simp
  from T have g6: "\<not> IsInstalled (db (snd (Install test_env test_manager ''svc'' ?w))) ''svc''"
    by blast
  from T ro have "\<not> os_Stat (fsys (snd (Install test_env test_manager ''svc'' ?w)))
         (cache_path test_manager ''svc'' (Version ?info))" by blast
  with p have g7: "\<not> os_Stat (fsys (snd (Install test_env test_manager ''svc'' ?w)))
         ''/cache/svc-1.0.mixpkg''" by simp
  from h1 g2 g3 s g5 g6 g7 show ?thesis by blast
qed

subsection \<open>C5: the rollback after a failing post-install script\<close>

text \<open>Whenever \<^verbatim>\<open>Install\<close> returns the error of the post-install script, the files
  were installed, the script ran and failed, \<^verbatim>\<open>removeFiles\<close> was applied to the list that
  \<^verbatim>\<open>installFiles\<close> returned, and the store is as before.\<close>

lemma Install_post_install_failed:
  assumes "fst (Install e m name w) = Some (ScriptFailed ''post-install'' err)"
  obtains pkgPath w6 fls w7 script where
    "\<not> IsInstalled (db w) name" and "db w6 = db w"
    and "installFiles e pkgPath w6 = ((fls, None), w7)"
    and "fst (runScript e script ''post-install'' w7) = Some err"
    and "snd (Install e m name w) = snd (removeFiles fls (snd (runScript e script ''post-install'' w7)))"
proof -
  from assms have ni: "\<not> IsInstalled (db w) name"
    by (auto simp: Install_def)
  from assms ni obtain info where info: "GetPackage (db w) name = Some info"
    by (cases "GetPackage (db w) name") (auto simp: Install_def)
  let ?w1 = "emit m ''start'' 0 ''Starting installation'' w"
  obtain r2 w2 where dl: "downloadPackage e m name (Version info) ?w1 = (r2, w2)"
    by (cases "downloadPackage e m name (Version info) ?w1")
  from dl have db2: "db w2 = db w"
    using downloadPackage_fields(1)[of e m name "Version info" ?w1] by simp
  from assms ni info dl obtain pkgPath where r2: "r2 = Inr pkgPath"
    by (cases r2) (auto simp: Install_def Let_def)
  let ?w3 = "if Checksum info \<noteq> '''' then emit m ''verify'' 25 ''Verifying checksum'' w2 else w2"
  let ?vc = "if Checksum info \<noteq> '''' then verifyChecksum e pkgPath (Checksum info) ?w3 else None"
  from assms ni info dl r2 have vc: "?vc = None"
    by (cases ?vc) (auto simp: Install_def Let_def)
  let ?w4 = "emit m ''extract'' 50 ''Extracting package'' ?w3"
  from assms ni info dl r2 vc obtain metadata where md: "extractPackage e pkgPath ?w4 = Inr metadata"
    by (cases "extractPackage e pkgPath ?w4") (auto simp: Install_def Let_def)
  let ?pre = "if PreInstall metadata \<noteq> ''''
              then runScript e (PreInstall metadata) ''pre-install'' ?w4 else (None, ?w4)"
  obtain r5 w5 where pre: "?pre = (r5, w5)" by (cases ?pre)
  have db5: "db w5 = db w"
  proof (cases "PreInstall metadata \<noteq> ''''")
    case True
    with pre have "w5 = snd (runScript e (PreInstall metadata) ''pre-install'' ?w4)" by simp
    with db2 show ?thesis by simp
  next
    case False
    with pre db2 show ?thesis by auto
  qed
  from assms ni info dl r2 vc md pre have r5: "r5 = None"
    by (cases r5) (auto simp: Install_def Let_def)
  let ?w6 = "emit m ''install'' 75 ''Installing files'' w5"
  obtain fls r7 w7 where inst: "installFiles e pkgPath ?w6 = ((fls, r7), w7)"
    by (cases "installFiles e pkgPath ?w6") auto
  from assms ni info dl r2 vc md pre r5 inst have r7: "r7 = None"
    by (cases r7) (auto simp: Install_def Let_def)
  let ?post = "if PostInstall metadata \<noteq> ''''
               then runScript e (PostInstall metadata) ''post-install'' w7 else (None, w7)"
  obtain r8 w8 where post: "?post = (r8, w8)" by (cases ?post)
  from assms ni info dl r2 vc md pre r5 inst r7 post have r8: "r8 = Some err"
    and fin: "snd (Install e m name w) = snd (removeFiles fls w8)"
    by (cases r8; auto simp: Install_def Let_def)+
  from post r8 have ne: "PostInstall metadata \<noteq> ''''" by (auto split: if_splits)
  with post r8 have run: "fst (runScript e (PostInstall metadata) ''post-install'' w7) = Some err"
    and w8: "w8 = snd (runScript e (PostInstall metadata) ''post-install'' w7)" by simp_all
  show thesis
    by (rule that[of ?w6 pkgPath fls w7 "PostInstall metadata"])
       (use ni db5 inst r7 run fin w8 in simp_all)
qed

lemma Install_post_install_ledger:
  assumes "fst (Install e m name w) = Some (ScriptFailed ''post-install'' err)"
  shows "db (snd (Install e m name w)) = db w"
proof -
  from assms obtain pkgPath w6 fls w7 script where
    db6: "db w6 = db w"
    and inst: "installFiles e pkgPath w6 = ((fls, None), w7)"
    and fin: "snd (Install e m name w) = snd (removeFiles fls (snd (runScript e script ''post-install'' w7)))"
    by (rule Install_post_install_failed)
  from inst have "db w7 = db w6"
    using installFiles_fields(1)[of e pkgPath w6] by simp
  with db6 fin show ?thesis by simp
qed

text \<open>
  C5: when the post-install script fails, every file written in the transaction
  should be deleted before the error is returned. On a system where \<open>/usr/app\<close> is a
  symbolic link to \<open>/data\<close>, which does not exist, the archive \<open>HOOK\<close> has the regular
  file \<open>usr/app\<close> and a post-install script that fails. \<^verbatim>\<open>installFiles\<close> opens \<open>/usr/app\<close>,
  which creates \<open>/data\<close> through the link and writes the content there, and lists
  \<open>/usr/app\<close>. The script fails, \<^verbatim>\<open>Install\<close> returns the error of the post-install script
  and records nothing in the ledger; the rollback removes \<open>/usr/app\<close>, the link, and
  the file written in this transaction, \<open>/data\<close>, is still there.
\<close>

theorem Install_rollback_leaves_written_file:
  "stat_node (fsys linked_hook) False ''/usr/app'' = Inr (Symlink ''/data'')
   \<and> \<not> os_Stat (fsys linked_hook) ''/data''
   \<and> fst (installFiles test_env ''/cache/hook-1.0.mixpkg'' linked_hook) = ([''/usr/app''], None)
   \<and> os_ReadFile (fsys (snd (installFiles test_env ''/cache/hook-1.0.mixpkg'' linked_hook))) ''/data''
       = Inr ''run''
   \<and> fst (Install test_env test_manager ''hook'' linked_hook)
       = Some (ScriptFailed ''post-install'' ExitError)
   \<and> scripts (snd (Install test_env test_manager ''hook'' linked_hook))
       = [(''post-install'', ''exit 1'')]
   \<and> \<not> IsInstalled (db (snd (Install test_env test_manager ''hook'' linked_hook))) ''hook''
   \<and> stat_node (fsys (snd (Install test_env test_manager ''hook'' linked_hook))) False ''/usr/app''
       = Inl ErrNotExist
   \<and> os_ReadFile (fsys (snd (Install test_env test_manager ''hook'' linked_hook))) ''/data''
       = Inr ''run''"
proof -
  have "stat_node (fsys linked_hook) False ''/usr/app'' = Inr (Symlink ''/data'')" by code_simp
  moreover have "\<not> os_Stat (fsys linked_hook) ''/data''" by code_simp
  moreover have "fst (installFiles test_env ''/cache/hook-1.0.mixpkg'' linked_hook)
      = ([''/usr/app''], None)"
    by code_simp
  moreover have "os_ReadFile (fsys (snd (installFiles test_env ''/cache/hook-1.0.mixpkg'' linked_hook)))
      ''/data'' = Inr ''run''"
    by code_simp
  moreover have "fst (Install test_env test_manager ''hook'' linked_hook)
      = Some (ScriptFailed ''post-install'' ExitError)"
    by code_simp
  moreover have "scripts (snd (Install test_env test_manager ''hook'' linked_hook))
      = [(''post-install'', ''exit 1'')]"
    by code_simp
  moreover have "\<not> IsInstalled (db (snd (Install test_env test_manager ''hook'' linked_hook))) ''hook''"
    by code_simp
  moreover have "stat_node (fsys (snd (Install test_env test_manager ''hook'' linked_hook))) False
      ''/usr/app'' = Inl ErrNotExist"
    by code_simp
  moreover have "os_ReadFile (fsys (snd (Install test_env test_manager ''hook'' linked_hook))) ''/data''
      = Inr ''run''"
    by code_simp
  ultimately show ?thesis by blast
qed

subsection \<open>C6: what file extraction skips\<close>

text \<open>When \<^verbatim>\<open>installFiles\<close> succeeds, it returns the targets of the listed entries, in
  the order of the archive.\<close>

lemma installFiles_loop_skip:
  "skipped h \<Longrightarrow> installFiles_loop (h # rest) ok acc f = installFiles_loop rest ok acc f"
  by (cases "entry_Name h = ''metadata.json'' \<or> strings_HasPrefix (entry_Name h) ''scripts/''")
     (auto simp: skipped_def Let_def)

lemma installFiles_loop_success:
  "installFiles_loop entries ok acc f = ((res, None), f') \<Longrightarrow>
   res = acc @ map target_of (filter listed entries)"
proof (induction entries arbitrary: acc f)
  case Nil
  then show ?case by (simp split: if_splits)
next
  case (Cons h rest)
  show ?case
  proof (cases "skipped h")
    case True
    with Cons.prems have "installFiles_loop rest ok acc f = ((res, None), f')"
      by (simp only: installFiles_loop_skip)
    from Cons.IH[OF this] True show ?thesis by (simp add: listed_def)
  next
    case False
    then have ns: "entry_Name h \<noteq> ''metadata.json''"
      "\<not> strings_HasPrefix (entry_Name h) ''scripts/''"
      "strip_files_prefix (entry_Name h) \<noteq> ''''" "strip_files_prefix (entry_Name h) \<noteq> ''.''"
      by (simp_all add: skipped_def)
    show ?thesis
    proof (cases "Typeflag h")
      case TypeReg
      with Cons.prems ns obtain f2 where
        "installFiles_loop rest ok (acc @ [target_of h]) f2 = ((res, None), f')"
        by (auto simp: Let_def target_of_def split: prod.splits option.splits sum.splits if_splits)
      from Cons.IH[OF this] False TypeReg show ?thesis by (simp add: listed_def)
    next
      case TypeDir
      with Cons.prems ns obtain f2 where "installFiles_loop rest ok acc f2 = ((res, None), f')"
        by (auto simp: Let_def target_of_def split: prod.splits option.splits sum.splits if_splits)
      from Cons.IH[OF this] False TypeDir show ?thesis by (simp add: listed_def)
    next
      case TypeSymlink
      with Cons.prems ns obtain f2 where
        "installFiles_loop rest ok (acc @ [target_of h]) f2 = ((res, None), f')"
        by (auto simp: Let_def target_of_def split: prod.splits option.splits sum.splits if_splits)
      from Cons.IH[OF this] False TypeSymlink show ?thesis by (simp add: listed_def)
    next
      case TypeOther
      with Cons.prems ns have "installFiles_loop rest ok acc f = ((res, None), f')"
        by (auto simp: Let_def)
      from Cons.IH[OF this] False TypeOther show ?thesis by (simp add: listed_def)
    qed
  qed
qed

lemma installFiles_success:
  assumes "installFiles e pkgPath w = ((res, None), w')"
  obtains bytes entries ok where
    "os_ReadFile (fsys w) pkgPath = Inr bytes" and "tar_stream e bytes = Some (entries, ok)"
    and "res = map target_of (filter listed entries)"
proof -
  from assms obtain bytes where b: "os_ReadFile (fsys w) pkgPath = Inr bytes"
    by (cases "os_ReadFile (fsys w) pkgPath") (auto simp: installFiles_def)
  with assms obtain entries ok where t: "tar_stream e bytes = Some (entries, ok)"
    by (cases "tar_stream e bytes") (auto simp: installFiles_def)
  with assms b obtain f' where "installFiles_loop entries ok [] (fsys w) = ((res, None), f')"
    by (auto simp: installFiles_def split: prod.splits)
  from installFiles_loop_success[OF this] have "res = map target_of (filter listed entries)"
    by simp
  with b t show thesis by (rule that)
qed

text \<open>
  C6: file extraction should skip the metadata entry. For the archive \<open>DOT\<close>, whose
  metadata entry is named \<open>./metadata.json\<close>, \<^verbatim>\<open>readPackageMetadata\<close> takes that entry as
  the metadata, but \<^verbatim>\<open>installFiles\<close> does not skip it: it writes the document to
  \<open>/metadata.json\<close> and lists \<open>/./metadata.json\<close> among the installed files. The same
  package archived without the prefix installs \<open>/usr/app\<close> only.
\<close>

theorem installFiles_keeps_dot_metadata:
  "map_sum id md_Name
     (readPackageMetadata test_env ''/cache/svc-1.0.mixpkg'' (test_world ''svc'' ''DOT'' '''')) = Inr ''svc''
   \<and> fst (installFiles test_env ''/cache/svc-1.0.mixpkg'' (test_world ''svc'' ''DOT'' ''''))
       = ([''/./metadata.json'', ''/usr/app''], None)
   \<and> os_ReadFile (fsys (snd (installFiles test_env ''/cache/svc-1.0.mixpkg''
                               (test_world ''svc'' ''DOT'' '''')))) ''/metadata.json'' = Inr ''{svc}''
   \<and> fst (installFiles test_env ''/cache/svc-1.0.mixpkg'' (test_world ''svc'' ''SVC'' ''''))
       = ([''/usr/app''], None)"
proof -
  have "map_sum id md_Name
     (readPackageMetadata test_env ''/cache/svc-1.0.mixpkg'' (test_world ''svc'' ''DOT'' '''')) = Inr ''svc''"
    by code_simp
  moreover have "fst (installFiles test_env ''/cache/svc-1.0.mixpkg'' (test_world ''svc'' ''DOT'' ''''))
       = ([''/./metadata.json'', ''/usr/app''], None)"
    by code_simp
  moreover have "os_ReadFile (fsys (snd (installFiles test_env ''/cache/svc-1.0.mixpkg''
                               (test_world ''svc'' ''DOT'' '''')))) ''/metadata.json'' = Inr ''{svc}''"
    by code_simp
  moreover have "fst (installFiles test_env ''/cache/svc-1.0.mixpkg'' (test_world ''svc'' ''SVC'' ''''))
       = ([''/usr/app''], None)"
    by code_simp
  ultimately show ?thesis by blast
qed

subsection \<open>C3: lifecycle hooks on removal\<close>

text \<open>
  C3: \<^verbatim>\<open>Remove\<close> should run the pre-remove script a package declares, before any file
  is deleted, and fail when it exits non-zero. The archive of svc declares the
  pre-remove script \<open>exit 1\<close>, on which the shell fails; svc installs; yet removing it
  succeeds, deletes its file and hands no script to the shell.
\<close>

theorem Remove_skips_declared_hooks:
  "map_sum id md_PreRemove
     (extractPackage test_env ''/cache/svc-1.0.mixpkg'' (test_world ''svc'' ''SVC'' '''')) = Inr ''exit 1''
   \<and> fst (sh test_env ''exit 1'' (fsys installed_svc)) = False
   \<and> fst (Install test_env test_manager ''svc'' (test_world ''svc'' ''SVC'' '''')) = None
   \<and> IsInstalled (db installed_svc) ''svc''
   \<and> fst (Remove test_env test_manager ''svc'' False installed_svc) = None
   \<and> scripts (snd (Remove test_env test_manager ''svc'' False installed_svc)) = []
   \<and> os_Stat (fsys installed_svc) ''/usr/app''
   \<and> \<not> os_Stat (fsys (snd (Remove test_env test_manager ''svc'' False installed_svc))) ''/usr/app''"
proof -
  have "map_sum id md_PreRemove
     (extractPackage test_env ''/cache/svc-1.0.mixpkg'' (test_world ''svc'' ''SVC'' '''')) = Inr ''exit 1''"
    by code_simp
  moreover have "fst (sh test_env ''exit 1'' (fsys installed_svc)) = False" by code_simp
  moreover have "fst (Install test_env test_manager ''svc'' (test_world ''svc'' ''SVC'' '''')) = None"
    by code_simp
  moreover have "IsInstalled (db installed_svc) ''svc''" by code_simp
  moreover have "fst (Remove test_env test_manager ''svc'' False installed_svc) = None" by code_simp
  moreover have "scripts (snd (Remove test_env test_manager ''svc'' False installed_svc)) = []"
    by code_simp
  moreover have "os_Stat (fsys installed_svc) ''/usr/app''" by code_simp
  moreover have "\<not> os_Stat (fsys (snd (Remove test_env test_manager ''svc'' False installed_svc))) ''/usr/app''"
    by code_simp
  ultimately show ?thesis by blast
qed

subsection \<open>C10: removal of files never fails\<close>

text \<open>
  C10: \<^verbatim>\<open>removeFiles\<close> returns no error for any list and any file system, so \<^verbatim>\<open>Remove\<close>
  never fails at its remove-files stage; for an installed package it goes on to the
  end, returns no error and deletes the ledger entry, whatever the file system
  refuses.
\<close>

theorem removeFiles_never_fails:
  "fst (removeFiles fls w) = None
   \<and> fst (Remove e m name purge w) \<noteq> Some (RemoveFilesFailed err)
   \<and> (IsInstalled (db w) name \<longrightarrow>
        fst (Remove e m name purge w) = None
        \<and> \<not> IsInstalled (db (snd (Remove e m name purge w))) name)"
proof -
  have "fst (Remove e m name purge w) \<noteq> Some (RemoveFilesFailed err)"
    using Remove_error[of e m name purge w] by auto
  moreover have "IsInstalled (db w) name \<longrightarrow>
        fst (Remove e m name purge w) = None
        \<and> \<not> IsInstalled (db (snd (Remove e m name purge w))) name"
    by (simp add: Remove_installed)
  ultimately show ?thesis by simp
qed

theorem removeFiles_never_fails_witness:
  "fst (os_Remove (fsys locked_svc) ''/usr/app'') = Some ErrPermission
   \<and> IsInstalled (db locked_svc) ''svc''
   \<and> fst (removeFiles [''/usr/app''] locked_svc) = None
   \<and> fst (Remove test_env test_manager ''svc'' False locked_svc) = None
   \<and> \<not> IsInstalled (db (snd (Remove test_env test_manager ''svc'' False locked_svc))) ''svc''
   \<and> os_Stat (fsys (snd (Remove test_env test_manager ''svc'' False locked_svc))) ''/usr/app''"
proof -
  have a: "fst (os_Remove (fsys locked_svc) ''/usr/app'') = Some ErrPermission" by code_simp
  have i: "IsInstalled (db locked_svc) ''svc''" by code_simp
  have s: "os_Stat (fsys (snd (Remove test_env test_manager ''svc'' False locked_svc))) ''/usr/app''"
    by code_simp
  note T = removeFiles_never_fails[of "[''/usr/app'']" locked_svc test_env test_manager "''svc''" False]
  from T have r: "fst (removeFiles [''/usr/app''] locked_svc) = None" by blast
  from T i have f: "fst (Remove test_env test_manager ''svc'' False locked_svc) = None" by blast
  from T i have g: "\<not> IsInstalled (db (snd (Remove test_env test_manager ''svc'' False locked_svc))) ''svc''"
    by blast
  from a i r f g s show ?thesis by blast
qed

end
